theory Spec2Isabelle
  imports Main
begin

section \<open>Text utilities: \<^verbatim>\<open>phoenix_lib/utils/text.py\<close>\<close>

text \<open>
  A Python \<^verbatim>\<open>str\<close> is modelled as a \<^typ>\<open>string\<close>, each \<^typ>\<open>char\<close> standing for
  one code point below 256. \<^verbatim>\<open>str.strip()\<close> with no argument removes the code points
  for which \<^verbatim>\<open>str.isspace\<close> holds; below 256 these are 9..13, 28..32, 133 and 160.
\<close>

definition py_isspace :: "char \<Rightarrow> bool" where
  "py_isspace c =
     (let n = (of_char c :: nat)
      in (9 \<le> n \<and> n \<le> 13) \<or> (28 \<le> n \<and> n \<le> 32) \<or> n = 133 \<or> n = 160)"

definition py_lstrip :: "string \<Rightarrow> string" where
  "py_lstrip s = dropWhile py_isspace s"

definition py_rstrip :: "string \<Rightarrow> string" where
  "py_rstrip s = rev (dropWhile py_isspace (rev s))"

definition py_strip :: "string \<Rightarrow> string" where
  "py_strip s = py_rstrip (py_lstrip s)"

definition startswith :: "string \<Rightarrow> string \<Rightarrow> bool" where
  "startswith s p = (take (length p) s = p)"

definition endswith :: "string \<Rightarrow> string \<Rightarrow> bool" where
  "endswith s p = (length p \<le> length s \<and> drop (length s - length p) s = p)"

fun contains :: "string \<Rightarrow> string \<Rightarrow> bool" where
  \<comment> \<open>\<^verbatim>\<open>sub in s\<close>\<close>
  "contains [] sub = (sub = [])"
| "contains (c # s) sub = (startswith (c # s) sub \<or> contains s sub)"

subsection \<open>The two regular expressions\<close>

text \<open>
  \<^verbatim>\<open>re.match\<close> is a backtracking matcher anchored at the start of the subject. The
  patterns of \<^verbatim>\<open>strip_markdown_code_fences\<close> are sequences of the items below. Both
  are compiled with \<^verbatim>\<open>re.DOTALL\<close>, so \<^verbatim>\<open>.\<close> matches every character, and without
  \<^verbatim>\<open>re.MULTILINE\<close>, so \<^verbatim>\<open>$\<close> matches at the end of the subject and before a line
  feed that is its last character. The leading \<^verbatim>\<open>^\<close> is implied by \<^verbatim>\<open>re.match\<close>.
\<close>

datatype re_item =
    Lit char                    \<comment> \<open>a literal character\<close>
  | ClassStar "char \<Rightarrow> bool"     \<comment> \<open>\<^verbatim>\<open>[...]*\<close>, greedy\<close>
  | GroupAnyPlus                \<comment> \<open>\<^verbatim>\<open>(.+)\<close>, greedy, the only capturing group\<close>
  | OptLit char                 \<comment> \<open>\<^verbatim>\<open>c?\<close>, greedy\<close>
  | EndDollar                   \<comment> \<open>\<^verbatim>\<open>$\<close>\<close>

text \<open>
  \<open>greedy f lo n\<close> tries the repetition counts \<open>lo + n\<close>, \<open>lo + n - 1\<close>, ..., \<open>lo\<close> in
  this order and keeps the first that lets the rest of the pattern match.
\<close>

primrec greedy :: "(nat \<Rightarrow> 'a option) \<Rightarrow> nat \<Rightarrow> nat \<Rightarrow> 'a option" where
  "greedy f lo 0 = f lo"
| "greedy f lo (Suc n) =
     (case f (lo + Suc n) of Some r \<Rightarrow> Some r | None \<Rightarrow> greedy f lo n)"

text \<open>
  \<open>re_match items s\<close> is \<open>None\<close> when the pattern does not match at the start of \<open>s\<close>,
  and \<open>Some g\<close> with \<open>g\<close> the text of group 1 when it does (the empty text while no
  group has been met).
\<close>

primrec re_match :: "re_item list \<Rightarrow> string \<Rightarrow> string option" where
  "re_match [] = (\<lambda>s. Some [])"
| "re_match (i # items) = (\<lambda>s.
     case i of
       Lit c \<Rightarrow>
         (case s of [] \<Rightarrow> None
          | x # xs \<Rightarrow> if x = c then re_match items xs else None)
     | ClassStar P \<Rightarrow>
         greedy (\<lambda>k. re_match items (drop k s)) 0 (length (takeWhile P s))
     | GroupAnyPlus \<Rightarrow>
         (if s = [] then None
          else greedy (\<lambda>k. map_option (\<lambda>_. take k s) (re_match items (drop k s)))
                 1 (length s - 1))
     | OptLit c \<Rightarrow>
         (case s of [] \<Rightarrow> re_match items s
          | x # xs \<Rightarrow>
              if x = c
              then (case re_match items xs of Some r \<Rightarrow> Some r
                    | None \<Rightarrow> re_match items s)
              else re_match items s)
     | EndDollar \<Rightarrow>
         (if s = [] \<or> s = [CHR 0x0A] then re_match items s else None))"

definition lang_char :: "char \<Rightarrow> bool" where
  \<comment> \<open>the class \<^verbatim>\<open>[a-zA-Z0-9_-]\<close>\<close>
  "lang_char c =
     (let n = (of_char c :: nat)
      in (97 \<le> n \<and> n \<le> 122) \<or> (65 \<le> n \<and> n \<le> 90) \<or> (48 \<le> n \<and> n \<le> 57)
         \<or> c = CHR ''_'' \<or> c = CHR ''-'')"

definition fence_tail :: "re_item list" where
  \<comment> \<open>\<^verbatim>\<open>\n(.+)\n?```$\<close>, the part the two patterns share\<close>
  "fence_tail =
     [Lit (CHR 0x0A), GroupAnyPlus, OptLit (CHR 0x0A),
      Lit (CHR 0x60), Lit (CHR 0x60), Lit (CHR 0x60), EndDollar]"

definition pattern :: "re_item list" where
  \<comment> \<open>\<^verbatim>\<open>^```[a-zA-Z0-9_-]*\n(.+)\n?```$\<close>\<close>
  "pattern =
     [Lit (CHR 0x60), Lit (CHR 0x60), Lit (CHR 0x60), ClassStar lang_char] @ fence_tail"

definition pattern_no_lang :: "re_item list" where
  \<comment> \<open>\<^verbatim>\<open>^```\n(.+)\n?```$\<close>\<close>
  "pattern_no_lang = [Lit (CHR 0x60), Lit (CHR 0x60), Lit (CHR 0x60)] @ fence_tail"

subsection \<open>\<^verbatim>\<open>strip_markdown_code_fences\<close>\<close>

text \<open>
  The argument is a \<^verbatim>\<open>str\<close> here, so of the first guard
  \<^verbatim>\<open>if not text or not isinstance(text, str)\<close> only the emptiness test remains.
\<close>

definition strip_markdown_code_fences :: "string \<Rightarrow> string" where
  "strip_markdown_code_fences text =
     (if text = [] then text
      else
        let stripped = py_strip text
        in if \<not> startswith stripped [CHR 0x60, CHR 0x60, CHR 0x60] then text
           else
             (case re_match pattern stripped of
                Some g \<Rightarrow> py_strip g
              | None \<Rightarrow>
                  (case re_match pattern_no_lang stripped of
                     Some g \<Rightarrow> py_strip g
                   | None \<Rightarrow> text)))"

text \<open>
  Two derived notions used to state and prove properties of the function: the part of
  the patterns after the capturing group, and the result of \<^verbatim>\<open>re.match(pattern, t)\<close>
  in closed form for a subject \<open>t\<close> that does not end in a line feed (as every
  \<^verbatim>\<open>text.strip()\<close> does). Lemma \<open>strip_closed\<close> below links them to the function.
\<close>

definition closing :: "re_item list" where
  \<comment> \<open>\<^verbatim>\<open>\n?```$\<close>\<close>
  "closing = [OptLit (CHR 0x0A), Lit (CHR 0x60), Lit (CHR 0x60), Lit (CHR 0x60), EndDollar]"

definition fence_body :: "string \<Rightarrow> string option" where
  "fence_body t =
     (if \<not> startswith t [CHR 0x60, CHR 0x60, CHR 0x60] then None
      else case dropWhile lang_char (drop 3 t) of
             [] \<Rightarrow> None
           | c # rest \<Rightarrow>
               if c = CHR 0x0A \<and> 4 \<le> length rest
                  \<and> endswith rest [CHR 0x60, CHR 0x60, CHR 0x60]
               then Some (take (length rest - 3) rest) else None)"

section \<open>LLM output normalisation: \<^verbatim>\<open>phoenix_lib/llm/utils.py\<close>\<close>

subsection \<open>Python values\<close>

text \<open>
  \<^verbatim>\<open>normalize_result\<close> takes a value of any type. The model has the values the code
  tells apart: \<^verbatim>\<open>None\<close>, strings, numbers and booleans, dicts (insertion-ordered
  items, keys strings or ints), lists, tuples, and every other object.

  Of an object, the code reads the attributes \<^verbatim>\<open>content\<close>, \<^verbatim>\<open>text\<close>, \<^verbatim>\<open>choices\<close>,
  \<^verbatim>\<open>message\<close> and \<^verbatim>\<open>generations\<close>, calls \<^verbatim>\<open>model_dump\<close>, takes \<^verbatim>\<open>repr\<close> and, for
  the value of \<^verbatim>\<open>generations\<close>, iterates. An object is therefore given by
  \<^item> its attribute table: a name that is not in the table raises \<^verbatim>\<open>AttributeError\<close>, a
    name in the table either raises another exception or gives a value;
  \<^item> the outcomes of the two ways \<^verbatim>\<open>model_dump\<close> is called, when it has that method;
  \<^item> the outcome of \<^verbatim>\<open>repr\<close>;
  \<^item> the outcome of a \<^verbatim>\<open>for\<close> loop over it: the elements it yields (a set, a
    generator, any iterable), or the exception raised, which is \<^verbatim>\<open>TypeError\<close> for an
    object that is not iterable. The loop of the code keeps nothing when an exception
    ends it, so the elements yielded before an exception need not be told.

  Attribute access is taken to be deterministic. Exceptions are subclasses of
  \<^verbatim>\<open>Exception\<close>; the code tells \<^verbatim>\<open>TypeError\<close> from the others, and \<^verbatim>\<open>ValueError\<close> is
  what \<^verbatim>\<open>str\<close> raises. A float is given by the text \<^verbatim>\<open>str\<close> returns for it. Values
  are finite trees, so cyclic structures, iterators that never end and
  \<^verbatim>\<open>RecursionError\<close> are outside the model.
\<close>

datatype pyexn = TypeError | ValueError | OtherError

datatype pykey = KStr string | KInt int

datatype pyval =
    PNone
  | PStr string
  | PInt int
  | PFloat string
  | PBool bool
  | PDict "(pykey \<times> pyval) list"
  | PList "pyval list"
  | PTuple "pyval list"
  | PObj "(string \<times> (pyexn + pyval)) list"
         "((pyexn + pyval) \<times> (pyexn + pyval)) option"
         "pyexn + string"
         "pyexn + pyval list"

text \<open>
  \<open>getattr v name\<close> is \<open>None\<close> when the access raises \<^verbatim>\<open>AttributeError\<close>.
  \<^verbatim>\<open>hasattr\<close> turns exactly that exception into \<^verbatim>\<open>False\<close> and lets any other
  through. None of the built-in types has one of the attributes the code asks for.
\<close>

definition getattr :: "pyval \<Rightarrow> string \<Rightarrow> (pyexn + pyval) option" where
  "getattr v name = (case v of PObj attrs dump rp elems \<Rightarrow> map_of attrs name | _ \<Rightarrow> None)"

definition hasattr :: "pyval \<Rightarrow> string \<Rightarrow> pyexn + bool" where
  "hasattr v name =
     (case getattr v name of
        None \<Rightarrow> Inr False
      | Some (Inl e) \<Rightarrow> Inl e
      | Some (Inr x) \<Rightarrow> Inr True)"

definition sequence :: "pyval \<Rightarrow> pyval list option" where
  \<comment> \<open>\<^verbatim>\<open>isinstance(v, (list, tuple))\<close>, with the elements\<close>
  "sequence v = (case v of PList xs \<Rightarrow> Some xs | PTuple xs \<Rightarrow> Some xs | _ \<Rightarrow> None)"

definition key_value :: "pykey \<Rightarrow> pyval" where
  "key_value k = (case k of KStr s \<Rightarrow> PStr s | KInt i \<Rightarrow> PInt i)"

definition py_iter :: "pyval \<Rightarrow> pyexn + pyval list" where
  \<comment> \<open>what \<^verbatim>\<open>for g in v\<close> runs over; a value that is not iterable raises\<close>
  "py_iter v =
     (case v of
        PList xs \<Rightarrow> Inr xs
      | PTuple xs \<Rightarrow> Inr xs
      | PDict items \<Rightarrow> Inr (map (key_value \<circ> fst) items)
      | PStr s \<Rightarrow> Inr (map (\<lambda>c. PStr [c]) s)
      | PObj attrs dump rp elems \<Rightarrow> elems
      | _ \<Rightarrow> Inl TypeError)"

subsection \<open>\<^verbatim>\<open>str\<close>, \<^verbatim>\<open>join\<close> and \<^verbatim>\<open>json.dumps\<close>\<close>

fun digits :: "nat \<Rightarrow> string" where
  "digits n =
     (if n < 10 then [char_of (48 + n)]
      else digits (n div 10) @ [char_of (48 + n mod 10)])"

declare digits.simps [simp del]

text \<open>
  \<^verbatim>\<open>str\<close> of an integer with more than 4300 decimal digits raises \<^verbatim>\<open>ValueError\<close> (the
  default of \<^verbatim>\<open>sys.set_int_max_str_digits\<close> since Python 3.11).
\<close>

definition str_int :: "int \<Rightarrow> pyexn + string" where
  "str_int i =
     (let ds = digits (nat \<bar>i\<bar>)
      in if 4300 < length ds then Inl ValueError
         else Inr (if i < 0 then CHR ''-'' # ds else ds))"

definition str_key :: "pykey \<Rightarrow> pyexn + string" where
  "str_key k = (case k of KStr s \<Rightarrow> Inr s | KInt i \<Rightarrow> str_int i)"

fun py_join :: "string \<Rightarrow> string list \<Rightarrow> string" where
  "py_join sep [] = []"
| "py_join sep [x] = x"
| "py_join sep (x # y # ys) = x @ sep @ py_join sep (y # ys)"

definition join_nonempty :: "string list \<Rightarrow> string" where
  \<comment> \<open>\<^verbatim>\<open>"\n".join(p for p in parts if p)\<close>\<close>
  "join_nonempty parts = py_join [CHR 0x0A] (filter (\<lambda>p. p \<noteq> []) parts)"

fun dict_set :: "('k \<times> 'v) list \<Rightarrow> 'k \<Rightarrow> 'v \<Rightarrow> ('k \<times> 'v) list" where
  "dict_set [] k v = [(k, v)]"
| "dict_set ((k', v') # d) k v =
     (if k' = k then (k', v) # d else (k', v') # dict_set d k v)"

definition dict_of :: "('k \<times> 'v) list \<Rightarrow> ('k \<times> 'v) list" where
  \<comment> \<open>a dict comprehension: a later item with the same key overwrites the value\<close>
  "dict_of kvs = foldl (\<lambda>d (k, v). dict_set d k v) [] kvs"

definition hex_digit :: "nat \<Rightarrow> char" where
  "hex_digit n = (if n < 10 then char_of (48 + n) else char_of (87 + n))"

definition json_escape :: "char \<Rightarrow> string" where
  \<comment> \<open>the escapes of \<^verbatim>\<open>json.dumps(..., ensure_ascii=False)\<close>\<close>
  "json_escape c =
     (let n = (of_char c :: nat)
      in if c = CHR 0x22 then [CHR 0x5C, CHR 0x22]
         else if c = CHR 0x5C then [CHR 0x5C, CHR 0x5C]
         else if n = 10 then [CHR 0x5C, CHR ''n'']
         else if n = 13 then [CHR 0x5C, CHR ''r'']
         else if n = 9 then [CHR 0x5C, CHR ''t'']
         else if n = 8 then [CHR 0x5C, CHR ''b'']
         else if n = 12 then [CHR 0x5C, CHR ''f'']
         else if n < 32
           then [CHR 0x5C, CHR ''u'', CHR ''0'', CHR ''0'', hex_digit (n div 16), hex_digit (n mod 16)]
         else [c])"

definition json_string :: "string \<Rightarrow> string" where
  "json_string s = [CHR 0x22] @ concat (map json_escape s) @ [CHR 0x22]"

definition json_dumps :: "(string \<times> string) list \<Rightarrow> string" where
  "json_dumps d =
     ''{'' @ py_join '', '' (map (\<lambda>(k, v). json_string k @ '': '' @ json_string v) d) @ ''}''"

subsection \<open>Exceptions\<close>

text \<open>
  A computation that may raise returns \<open>Inl\<close> of the exception. \<open>collect\<close> runs a
  loop or comprehension whose steps have no effect but their result: the first step
  that raises ends it.
\<close>

fun collect :: "('e + 'a) list \<Rightarrow> 'e + 'a list" where
  "collect [] = Inr []"
| "collect (Inl e # rs) = Inl e"
| "collect (Inr x # rs) = (case collect rs of Inl e \<Rightarrow> Inl e | Inr xs \<Rightarrow> Inr (x # xs))"

definition joined :: "pyexn + string list \<Rightarrow> pyexn + string" where
  "joined r = (case r of Inl e \<Rightarrow> Inl e | Inr texts \<Rightarrow> Inr (join_nonempty texts))"

definition absorbed :: "pyexn + string \<Rightarrow> pyexn + string" where
  \<comment> \<open>\<^verbatim>\<open>try: return ... except Exception: return ""\<close>\<close>
  "absorbed r = (case r of Inl e \<Rightarrow> Inr [] | Inr t \<Rightarrow> Inr t)"

text \<open>
  The value bound to \<^verbatim>\<open>dumped\<close> in \<^verbatim>\<open>_extract_text\<close>, from the outcomes of the call
  with \<^verbatim>\<open>warnings=False\<close> and of the call without it. The second call is made in the
  handler of \<^verbatim>\<open>TypeError\<close>, where no other handler of the statement applies.
\<close>

fun model_dump :: "(pyexn + pyval) \<times> (pyexn + pyval) \<Rightarrow> pyexn + pyval" where
  "model_dump (Inr d, second) = Inr d"
| "model_dump (Inl TypeError, second) = second"
| "model_dump (Inl e, second) = Inr PNone"

subsection \<open>\<^verbatim>\<open>_extract_text\<close>\<close>

function (sequential) extract_text :: "pyval \<Rightarrow> pyexn + string" where
  "extract_text PNone = Inr []"
| "extract_text (PStr s) = Inr s"
| "extract_text (PInt i) = str_int i"
| "extract_text (PFloat r) = Inr r"
| "extract_text (PBool b) = Inr (if b then ''True'' else ''False'')"
| "extract_text (PDict items) =
     (case map_of items (KStr ''content'') of
        Some v \<Rightarrow> extract_text v
      | None \<Rightarrow>
          (case collect (map (\<lambda>(k, v). case str_key k of
                                          Inl e \<Rightarrow> Inl e
                                        | Inr name \<Rightarrow>
                                            (case extract_text v of
                                               Inl e \<Rightarrow> Inl e
                                             | Inr t \<Rightarrow> Inr (name, t))) items) of
             Inl e \<Rightarrow> Inl e
           | Inr normalized \<Rightarrow> Inr (json_dumps (dict_of normalized))))"
| "extract_text (PList vs) = joined (collect (map extract_text vs))"
| "extract_text (PTuple vs) = joined (collect (map extract_text vs))"
| "extract_text (PObj attrs dump rp elems) =
     (case map_of attrs ''content'' of
        Some (Inl e) \<Rightarrow> Inl e
      | Some (Inr c) \<Rightarrow> absorbed (extract_text c)
      | None \<Rightarrow>
          (case map_of attrs ''text'' of
             Some (Inl e) \<Rightarrow> Inl e
           | Some (Inr t) \<Rightarrow> absorbed (extract_text t)
           | None \<Rightarrow>
               (case dump of
                  None \<Rightarrow> absorbed rp
                | Some calls \<Rightarrow>
                    (case model_dump calls of
                       Inl e \<Rightarrow> Inl e
                     | Inr PNone \<Rightarrow> absorbed rp
                     | Inr dumped \<Rightarrow> extract_text dumped))))"
  by pat_completeness auto
termination
proof -
  have dict: "size v < Suc (size_list (size_prod (\<lambda>x. 0) size) items)"
    if "(k, v) \<in> set items" for k :: pykey and v :: pyval and items
    using that by (induction items) auto
  have elem: "size v < Suc (size_list size vs)"
    if "v \<in> set vs" for v :: pyval and vs
    using that by (induction vs) auto
  have attr_le: "size c \<le> size_list (size_prod (\<lambda>x. 0) (size_sum (\<lambda>x. 0) size)) attrs"
    if "(n, Inr c) \<in> set attrs" for n :: string and c :: pyval and attrs :: "(string \<times> (pyexn + pyval)) list"
    using that by (induction attrs) auto
  have attr: "size c < size (PObj attrs dump rp elems)"
    if "map_of attrs n = Some (Inr c)" for n c attrs dump rp elems
    using attr_le [OF map_of_SomeD [OF that]] by simp
  have dumped_le: "size d \<le> size_prod (size_sum (\<lambda>x. 0) size) (size_sum (\<lambda>x. 0) size) calls"
    if "model_dump calls = Inr d" for calls d
    using that by (cases calls rule: model_dump.cases) auto
  have dumped: "size d < size (PObj attrs (Some calls) rp elems)"
    if "model_dump calls = Inr d" for calls d attrs rp elems
    using dumped_le [OF that] by simp
  show ?thesis
  proof (relation "measure size", goal_cases)
    case 1
    show ?case by simp
  next
    case (2 items x xa y)
    then show ?case using dict [of xa y items] by auto
  next
    case (3 items x2)
    then show ?case using dict [OF map_of_SomeD, of items "KStr ''content''" x2] by simp
  next
    case (4 vs x)
    then show ?case using elem by simp
  next
    case (5 vs x)
    then show ?case using elem by simp
  qed (unfold in_measure, (blast intro: dumped attr)+)
qed

subsection \<open>\<^verbatim>\<open>normalize_result\<close>\<close>

definition choice_text :: "pyval \<Rightarrow> pyexn + string" where
  \<comment> \<open>the body of \<^verbatim>\<open>for c in choices\<close>, the text it appends\<close>
  "choice_text c =
     (case getattr c ''message'' of
        Some (Inl e) \<Rightarrow> Inl e
      | Some (Inr m) \<Rightarrow> extract_text m
      | None \<Rightarrow>
          (case getattr c ''text'' of
             Some (Inl e) \<Rightarrow> Inl e
           | Some (Inr t) \<Rightarrow> extract_text t
           | None \<Rightarrow> extract_text c))"

definition item_text :: "pyval \<Rightarrow> pyexn + string" where
  \<comment> \<open>the body of \<^verbatim>\<open>for item in result["choices"]\<close>\<close>
  "item_text item =
     (case item of
        PDict d \<Rightarrow>
          (case map_of d (KStr ''message'') of
             Some m \<Rightarrow> extract_text m
           | None \<Rightarrow>
               (case map_of d (KStr ''text'') of
                  Some t \<Rightarrow> extract_text t
                | None \<Rightarrow> extract_text item))
      | _ \<Rightarrow>
          (case getattr item ''message'' of
             Some (Inl e) \<Rightarrow> Inl e
           | Some (Inr m) \<Rightarrow> extract_text m
           | None \<Rightarrow> extract_text item))"

definition generation_text :: "pyval \<Rightarrow> pyexn + string" where
  \<comment> \<open>the text appended for one generation element\<close>
  "generation_text e =
     (case getattr e ''text'' of
        Some (Inl x) \<Rightarrow> Inl x
      | Some (Inr t) \<Rightarrow> extract_text t
      | None \<Rightarrow>
          (case getattr e ''content'' of
             Some (Inl x) \<Rightarrow> Inl x
           | Some (Inr c) \<Rightarrow> extract_text c
           | None \<Rightarrow> extract_text e))"

definition generation_texts :: "pyval \<Rightarrow> pyexn + string list" where
  \<comment> \<open>the body of \<^verbatim>\<open>for g in gens\<close>, the texts it appends\<close>
  "generation_texts g =
     (case sequence g of
        Some es \<Rightarrow> collect (map generation_text es)
      | None \<Rightarrow> (case generation_text g of Inl x \<Rightarrow> Inl x | Inr t \<Rightarrow> Inr [t]))"

definition output_of :: "pyval \<Rightarrow> pyexn + string" where
  \<comment> \<open>the variable \<^verbatim>\<open>output\<close> when the chain of \<^verbatim>\<open>if\<close>/\<^verbatim>\<open>elif\<close> is left\<close>
  "output_of result =
     (case result of
        PNone \<Rightarrow> Inr []
      | PStr s \<Rightarrow> Inr s
      | _ \<Rightarrow>
     (case getattr result ''content'' of
        Some (Inl e) \<Rightarrow> Inl e
      | Some (Inr c) \<Rightarrow> extract_text c
      | None \<Rightarrow>
     (case getattr result ''choices'' of
        Some (Inl e) \<Rightarrow> Inl e
      | Some (Inr choices) \<Rightarrow>
          (case (case sequence choices of
                   Some cs \<Rightarrow> joined (collect (map choice_text cs))
                 | None \<Rightarrow> extract_text choices) of
             Inl e \<Rightarrow> extract_text result
           | Inr out \<Rightarrow> Inr out)
      | None \<Rightarrow>
     (case result of
        PDict d \<Rightarrow>
          (case (case map_of d (KStr ''choices'') of
                   Some ch \<Rightarrow> sequence ch | None \<Rightarrow> None) of
             Some items \<Rightarrow> joined (collect (map item_text items))
           | None \<Rightarrow>
               (case map_of d (KStr ''message'') of
                  Some m \<Rightarrow> extract_text m
                | None \<Rightarrow> extract_text result))
      | _ \<Rightarrow>
     (case getattr result ''generations'' of
        Some (Inl e) \<Rightarrow> Inl e
      | Some (Inr gens) \<Rightarrow>
          (case py_iter gens of
             Inl e \<Rightarrow> Inr []
           | Inr gs \<Rightarrow>
               (case collect (map generation_texts gs) of
                  Inl e \<Rightarrow> Inr []
                | Inr texts \<Rightarrow> Inr (join_nonempty (concat texts))))
      | None \<Rightarrow> extract_text result)))))"

definition normalize_result :: "pyval \<Rightarrow> pyexn + string" where
  "normalize_result result =
     (case output_of result of
        Inl e \<Rightarrow> Inl e
      | Inr output \<Rightarrow> Inr (strip_markdown_code_fences output))"

subsection \<open>The rule for one choice, in the words of the specification\<close>

text \<open>
  The specification gives one rule for a choice, whatever its type: its \<^verbatim>\<open>message\<close>
  field if it has one, else its \<^verbatim>\<open>text\<close> field, else the choice itself. A field of a
  dict is a key, a field of any other value an attribute. \<open>spec_choice_text\<close>
  follows these words; \<open>choice_text\<close> and \<open>item_text\<close> above follow the two loops of
  the code.
\<close>

definition is_dict :: "pyval \<Rightarrow> bool" where
  "is_dict v = (case v of PDict d \<Rightarrow> True | _ \<Rightarrow> False)"

definition field :: "pyval \<Rightarrow> string \<Rightarrow> (pyexn + pyval) option" where
  "field c name =
     (case c of
        PDict d \<Rightarrow> map_option Inr (map_of d (KStr name))
      | _ \<Rightarrow> getattr c name)"

definition spec_choice_text :: "pyval \<Rightarrow> pyexn + string" where
  "spec_choice_text c =
     (case field c ''message'' of
        Some (Inl e) \<Rightarrow> Inl e
      | Some (Inr m) \<Rightarrow> extract_text m
      | None \<Rightarrow>
          (case field c ''text'' of
             Some (Inl e) \<Rightarrow> Inl e
           | Some (Inr t) \<Rightarrow> extract_text t
           | None \<Rightarrow> extract_text c))"

definition stripped_result :: "pyexn + string \<Rightarrow> pyexn + string" where
  \<comment> \<open>the last two statements of \<^verbatim>\<open>normalize_result\<close>, applied to an outcome\<close>
  "stripped_result r =
     (case r of Inl e \<Rightarrow> Inl e | Inr output \<Rightarrow> Inr (strip_markdown_code_fences output))"

definition plain_object :: "(string \<times> pyval) list \<Rightarrow> pyval" where
  \<comment> \<open>an object with the given attributes and a \<^verbatim>\<open>repr\<close>, without \<^verbatim>\<open>model_dump\<close>, not iterable\<close>
  "plain_object attrs =
     PObj (map (\<lambda>(n, v). (n, Inr v)) attrs) None (Inr ''<object>'') (Inl TypeError)"

subsection \<open>The rule for one choice, as the code has it\<close>

text \<open>
  What the two loops do with a choice of either kind, in the vocabulary of the
  specification: in the \<^verbatim>\<open>choices\<close> attribute of an object, a dict is extracted as a
  whole and any other choice follows the rule of the specification; under the
  \<^verbatim>\<open>choices\<close> key of a dict, a dict follows the rule of the specification and any
  other choice is asked for its \<^verbatim>\<open>message\<close> attribute only.
\<close>

definition held_by_object :: "pyval \<Rightarrow> pyexn + string" where
  "held_by_object c = (if is_dict c then extract_text c else spec_choice_text c)"

definition held_by_dict :: "pyval \<Rightarrow> pyexn + string" where
  "held_by_dict c =
     (if is_dict c then spec_choice_text c
      else (case getattr c ''message'' of
              Some (Inl e) \<Rightarrow> Inl e
            | Some (Inr m) \<Rightarrow> extract_text m
            | None \<Rightarrow> extract_text c))"

subsection \<open>Exchanging the backtick and the tilde\<close>

text \<open>
  A fence is told by its backticks. \<open>rename_value\<close> exchanges the backtick and the
  tilde in every string of a value: in strings, in the text of floats, in dict keys,
  in the text of \<^verbatim>\<open>repr\<close>, and in the values of attributes, of \<^verbatim>\<open>model_dump\<close> and of
  iteration. Attribute names are left as they are.
\<close>

definition swap_tick :: "char \<Rightarrow> char" where
  "swap_tick c = (if c = CHR 0x60 then CHR ''~'' else if c = CHR ''~'' then CHR 0x60 else c)"

definition renamed :: "string \<Rightarrow> string" where
  "renamed s = map swap_tick s"

definition rename_key :: "pykey \<Rightarrow> pykey" where
  "rename_key k = (case k of KStr s \<Rightarrow> KStr (renamed s) | KInt i \<Rightarrow> KInt i)"

primrec rename_value :: "pyval \<Rightarrow> pyval" where
  "rename_value PNone = PNone"
| "rename_value (PStr s) = PStr (renamed s)"
| "rename_value (PInt i) = PInt i"
| "rename_value (PFloat r) = PFloat (renamed r)"
| "rename_value (PBool b) = PBool b"
| "rename_value (PDict items) = PDict (map (map_prod rename_key rename_value) items)"
| "rename_value (PList vs) = PList (map rename_value vs)"
| "rename_value (PTuple vs) = PTuple (map rename_value vs)"
| "rename_value (PObj attrs dump rp elems) =
     PObj (map (map_prod id (map_sum id rename_value)) attrs)
          (map_option (map_prod (map_sum id rename_value) (map_sum id rename_value)) dump)
          (map_sum id renamed rp)
          (map_sum id (map rename_value) elems)"

definition renamed_result :: "pyexn + string \<Rightarrow> pyexn + string" where
  "renamed_result r = map_sum id renamed r"

section \<open>Properties of the fence stripper\<close>

subsection \<open>The matcher in closed form\<close>



lemma greedy_None_iff: "greedy f lo n = None \<longleftrightarrow> (\<forall>k\<le>n. f (lo + k) = None)"
proof (induction n)
  case 0
  then show ?case by simp
next
  case (Suc n)
  show ?case
  proof (cases "f (lo + Suc n)")
    case None
    then show ?thesis using Suc by (auto simp: le_Suc_eq)
  next
    case (Some r)
    then show ?thesis by auto
  qed
qed

lemma greedy_first:
  "k \<le> n \<Longrightarrow> f (lo + k) = Some r \<Longrightarrow> (\<forall>j. k < j \<and> j \<le> n \<longrightarrow> f (lo + j) = None)
   \<Longrightarrow> greedy f lo n = Some r"
proof (induction n)
  case 0
  then show ?case by simp
next
  case (Suc n)
  show ?case
  proof (cases "k = Suc n")
    case True
    then show ?thesis using Suc.prems by simp
  next
    case False
    then have "k \<le> n" using Suc.prems by simp
    moreover have "f (lo + Suc n) = None"
      using Suc.prems(3)[rule_format, of "Suc n"] Suc.prems(1) False by simp
    ultimately show ?thesis using Suc by simp
  qed
qed

lemma closing_three: "re_match closing [CHR 0x60, CHR 0x60, CHR 0x60] = Some []"
  by (simp add: closing_def)

lemma closing_Some:
  "re_match closing t = Some r \<Longrightarrow>
     r = [] \<and> (t = [CHR 0x60, CHR 0x60, CHR 0x60] \<or> t = [CHR 0x60, CHR 0x60, CHR 0x60, CHR 0x0A]
      \<or> t = [CHR 0x0A, CHR 0x60, CHR 0x60, CHR 0x60] \<or> t = [CHR 0x0A, CHR 0x60, CHR 0x60, CHR 0x60, CHR 0x0A])"
  by (auto simp: closing_def split: list.splits if_splits option.splits)


lemma closing_length: "re_match closing t = Some r \<Longrightarrow> 3 \<le> length t"
  using closing_Some [of t r] by auto

lemma drop_drop_last3:
  assumes "3 \<le> length (drop m xs)"
  shows "drop (length xs - 3) xs = drop (length (drop m xs) - 3) (drop m xs)"
proof -
  have "m + (length xs - m - 3) = length xs - 3" using assms by simp
  then show ?thesis by (simp add: add.commute)
qed

lemma group_closing:
  assumes "rest \<noteq> []" "last rest \<noteq> CHR 0x0A"
  shows "re_match (GroupAnyPlus # closing) rest =
           (if 4 \<le> length rest \<and> endswith rest [CHR 0x60, CHR 0x60, CHR 0x60]
            then Some (take (length rest - 3) rest) else None)"
proof (cases "4 \<le> length rest \<and> endswith rest [CHR 0x60, CHR 0x60, CHR 0x60]")
  case True
  let ?f = "\<lambda>k. map_option (\<lambda>_. take k rest) (re_match closing (drop k rest))"
  have d: "drop (length rest - 3) rest = [CHR 0x60, CHR 0x60, CHR 0x60]"
    using True by (simp add: endswith_def numeral_3_eq_3)
  have a: "length rest - 4 \<le> length rest - 1" by simp
  have b: "?f (1 + (length rest - 4)) = Some (take (length rest - 3) rest)"
  proof -
    have "4 \<le> length rest" using True by simp
    then have "1 + (length rest - 4) = length rest - 3" by arith
    then show ?thesis using d closing_three by simp
  qed
  have c: "\<forall>j. length rest - 4 < j \<and> j \<le> length rest - 1 \<longrightarrow> ?f (1 + j) = None"
  proof (intro allI impI)
    fix j assume j: "length rest - 4 < j \<and> j \<le> length rest - 1"
    have "4 \<le> length rest" using True by simp
    then have "length rest - (1 + j) < 3" using j by arith
    then have "length (drop (1 + j) rest) < 3" by simp
    then have "re_match closing (drop (1 + j) rest) = None"
      using closing_length [of "drop (1 + j) rest"]
      by (cases "re_match closing (drop (1 + j) rest)") (simp, fastforce)
    then show "?f (1 + j) = None" by simp
  qed
  show ?thesis using greedy_first [of "length rest - 4" "length rest - 1" ?f 1, OF a b c] True assms
    by simp
next
  case False
  let ?f = "\<lambda>k. map_option (\<lambda>_. take k rest) (re_match closing (drop k rest))"
  have "\<forall>k\<le>length rest - 1. ?f (1 + k) = None"
  proof (intro allI impI)
    fix k assume k: "k \<le> length rest - 1"
    show "?f (1 + k) = None"
    proof (cases "re_match closing (drop (1 + k) rest)")
      case None
      then show ?thesis by simp
    next
      case (Some r)
      let ?t = "drop (1 + k) rest"
      have l3: "3 \<le> length ?t" by (rule closing_length [OF Some])
      then have ne: "?t \<noteq> []" by auto
      then have l: "last ?t = last rest" by simp
      from closing_Some [OF Some] l assms(2)
      have t: "?t = [CHR 0x60, CHR 0x60, CHR 0x60] \<or> ?t = [CHR 0x0A, CHR 0x60, CHR 0x60, CHR 0x60]"
        by auto
      have "length rest - (1 + k) \<ge> 3" using l3 by simp
      then have "4 \<le> length rest" by arith
      moreover have "drop (length rest - 3) rest = [CHR 0x60, CHR 0x60, CHR 0x60]"
      proof -
        have "drop (length rest - 3) rest = drop (length ?t - 3) ?t"
          by (rule drop_drop_last3 [OF l3])
        also have "\<dots> = [CHR 0x60, CHR 0x60, CHR 0x60]"
          using t by (elim disjE) (simp_all only: list.size drop0 drop_Suc_Cons, simp_all)
        finally show ?thesis .
      qed
      ultimately show ?thesis using False by (simp add: endswith_def numeral_3_eq_3)
    qed
  qed
  then have "greedy ?f 1 (length rest - 1) = None" by (simp only: greedy_None_iff)
  then show ?thesis using False assms by simp
qed



lemma lang_char_not_nl: "lang_char c \<Longrightarrow> c \<noteq> CHR 0x0A"
  by (auto simp: lang_char_def)

lemma nl_not_lang_char: "\<not> lang_char (CHR 0x0A)"
  by (simp add: lang_char_def)

lemma fence_tail_eq: "fence_tail = Lit (CHR 0x0A) # GroupAnyPlus # closing"
  by (simp add: fence_tail_def closing_def)

lemma fence_tail_closed:
  assumes "s = [] \<or> last s \<noteq> CHR 0x0A"
  shows "re_match fence_tail s =
           (case s of [] \<Rightarrow> None
            | c # rest \<Rightarrow>
               if c = CHR 0x0A \<and> 4 \<le> length rest \<and> endswith rest [CHR 0x60, CHR 0x60, CHR 0x60]
               then Some (take (length rest - 3) rest) else None)"
proof (cases s)
  case Nil
  then show ?thesis by (simp add: fence_tail_eq)
next
  case (Cons c rest)
  show ?thesis
  proof (cases "rest = []")
    case True
    then show ?thesis using Cons by (simp add: fence_tail_eq)
  next
    case False
    then have "last rest \<noteq> CHR 0x0A" using assms Cons by simp
    from group_closing [OF False this] show ?thesis using Cons by (simp add: fence_tail_eq)
  qed
qed

lemma star_then_tail:
  "greedy (\<lambda>k. re_match fence_tail (drop k s)) 0 (length (takeWhile lang_char s))
     = re_match fence_tail (dropWhile lang_char s)"
proof -
  let ?n = "length (takeWhile lang_char s)"
  let ?f = "\<lambda>k. re_match fence_tail (drop k s)"
  have top: "drop ?n s = dropWhile lang_char s" by (rule dropWhile_eq_drop [symmetric])
  have low: "?f (0 + k) = None" if "k < ?n" for k
  proof -
    have "k < length s" using that length_takeWhile_le [of lang_char s] by (rule less_le_trans)
    then have d: "drop k s = s ! k # drop (Suc k) s" by (simp add: Cons_nth_drop_Suc)
    have "lang_char (takeWhile lang_char s ! k)" using that nth_mem set_takeWhileD by metis
    then have "lang_char (s ! k)" using that by (simp add: takeWhile_nth)
    then have "s ! k \<noteq> CHR 0x0A" by (rule lang_char_not_nl)
    then show ?thesis using d by (simp add: fence_tail_eq)
  qed
  show ?thesis
  proof (cases "?f (0 + ?n)")
    case None
    then have "\<forall>k\<le>?n. ?f (0 + k) = None" using low by (auto simp: le_less)
    then have "greedy ?f 0 ?n = None" by (simp only: greedy_None_iff)
    then show ?thesis using None top by simp
  next
    case (Some r)
    have "greedy ?f 0 ?n = Some r"
      by (rule greedy_first [of ?n ?n ?f 0 r]) (use Some in auto)
    then show ?thesis using Some top by simp
  qed
qed

lemma startswith_iff: "startswith s p \<longleftrightarrow> (\<exists>u. s = p @ u)"
proof
  assume "startswith s p"
  then have "s = p @ drop (length p) s"
    using append_take_drop_id [of "length p" s] by (simp add: startswith_def)
  then show "\<exists>u. s = p @ u" ..
next
  assume "\<exists>u. s = p @ u"
  then show "startswith s p" by (auto simp: startswith_def)
qed

lemma last_dropWhile: "dropWhile P u \<noteq> [] \<Longrightarrow> last (dropWhile P u) = last u"
  by (induction u) auto

lemma pattern_closed:
  assumes "t = [] \<or> last t \<noteq> CHR 0x0A"
  shows "re_match pattern t = fence_body t"
proof (cases "startswith t [CHR 0x60, CHR 0x60, CHR 0x60]")
  case False
  then show ?thesis
    by (auto simp: pattern_def fence_body_def startswith_def split: list.splits)
next
  case True
  then obtain u where t: "t = [CHR 0x60, CHR 0x60, CHR 0x60] @ u"
    by (auto simp: startswith_iff)
  let ?d = "dropWhile lang_char u"
  have d: "?d = [] \<or> last ?d \<noteq> CHR 0x0A"
  proof (cases "?d = []")
    case False
    then have "u \<noteq> []" by auto
    then have "last u = last t" by (simp add: t)
    then show ?thesis using False assms t last_dropWhile [OF False] by auto
  qed simp
  have "re_match pattern t = re_match fence_tail ?d"
    using star_then_tail [of u] by (simp add: pattern_def t)
  also have "\<dots> = fence_body t"
    using True by (simp add: fence_tail_closed [OF d] fence_body_def t)
  finally show ?thesis .
qed

lemma pattern_no_lang_closed:
  assumes "t = [] \<or> last t \<noteq> CHR 0x0A"
  shows "re_match pattern_no_lang t =
           (if startswith t [CHR 0x60, CHR 0x60, CHR 0x60, CHR 0x0A] then fence_body t else None)"
proof (cases "startswith t [CHR 0x60, CHR 0x60, CHR 0x60]")
  case False
  then show ?thesis
    by (auto simp: pattern_no_lang_def fence_body_def startswith_def split: list.splits)
next
  case True
  then obtain u where t: "t = [CHR 0x60, CHR 0x60, CHR 0x60] @ u"
    by (auto simp: startswith_iff)
  have d: "u = [] \<or> last u \<noteq> CHR 0x0A" using assms t by (cases "u = []") auto
  have s: "startswith t [CHR 0x60, CHR 0x60, CHR 0x60, CHR 0x0A] \<longleftrightarrow> (\<exists>r. u = CHR 0x0A # r)"
    by (auto simp: startswith_iff t)
  have "re_match pattern_no_lang t = re_match fence_tail u"
    by (simp add: pattern_no_lang_def t)
  also have "\<dots> = (if startswith t [CHR 0x60, CHR 0x60, CHR 0x60, CHR 0x0A] then fence_body t else None)"
    using True unfolding s
    by (auto simp: fence_tail_closed [OF d] fence_body_def t nl_not_lang_char split: list.splits)
  finally show ?thesis .
qed

lemma py_rstrip_last: "py_rstrip s = [] \<or> \<not> py_isspace (last (py_rstrip s))"
proof (cases "dropWhile py_isspace (rev s)")
  case Nil
  then show ?thesis by (simp add: py_rstrip_def)
next
  case (Cons a list)
  then have "\<not> py_isspace a" using hd_dropWhile [of py_isspace "rev s"] by auto
  then show ?thesis using Cons by (simp add: py_rstrip_def)
qed

lemma py_strip_last: "py_strip s = [] \<or> last (py_strip s) \<noteq> CHR 0x0A"
proof -
  have "py_isspace (CHR 0x0A)" by (simp add: py_isspace_def)
  then show ?thesis using py_rstrip_last [of "py_lstrip s"] by (auto simp: py_strip_def)
qed

text \<open>The function in closed form.\<close>

lemma strip_closed:
  "strip_markdown_code_fences text =
     (if text = [] then text
      else case fence_body (py_strip text) of Some g \<Rightarrow> py_strip g | None \<Rightarrow> text)"
proof -
  have a: "re_match pattern (py_strip text) = fence_body (py_strip text)"
    by (rule pattern_closed [OF py_strip_last])
  have b: "re_match pattern_no_lang (py_strip text) =
             (if startswith (py_strip text) [CHR 0x60, CHR 0x60, CHR 0x60, CHR 0x0A]
              then fence_body (py_strip text) else None)"
    by (rule pattern_no_lang_closed [OF py_strip_last])
  have c: "\<not> startswith (py_strip text) [CHR 0x60, CHR 0x60, CHR 0x60]
             \<Longrightarrow> fence_body (py_strip text) = None"
    by (simp add: fence_body_def)
  show ?thesis
    unfolding strip_markdown_code_fences_def Let_def a b using c
    by (auto split: option.splits)
qed

subsection \<open>Trimming and the shape of a match\<close>

lemma py_rstrip_length: "length (py_rstrip s) \<le> length s"
  using length_dropWhile_le [of py_isspace "rev s"] by (simp add: py_rstrip_def)

lemma py_strip_length: "length (py_strip s) \<le> length s"
proof -
  have "length (py_strip s) \<le> length (py_lstrip s)"
    unfolding py_strip_def by (rule py_rstrip_length)
  also have "\<dots> \<le> length s" by (simp add: py_lstrip_def length_dropWhile_le)
  finally show ?thesis .
qed

lemma py_strip_id:
  assumes "s \<noteq> []" "\<not> py_isspace (hd s)" "\<not> py_isspace (last s)"
  shows "py_strip s = s"
proof -
  have a: "py_lstrip s = s" using assms(1,2) by (cases s) (simp_all add: py_lstrip_def)
  have "rev s \<noteq> []" "\<not> py_isspace (hd (rev s))" using assms(1,3) by (simp_all add: hd_rev)
  then have "dropWhile py_isspace (rev s) = rev s" by (cases "rev s") simp_all
  then show ?thesis by (simp add: py_strip_def a py_rstrip_def)
qed

lemma py_strip_snoc_space: "py_strip (s @ [c]) = py_strip s" if "py_isspace c"
proof (cases "\<forall>x\<in>set s. py_isspace x")
  case True
  then have a: "dropWhile py_isspace s = []" by simp
  have b: "dropWhile py_isspace (s @ [c]) = []" using True that by simp
  show ?thesis by (simp only: py_strip_def py_lstrip_def py_rstrip_def a b)
next
  case False
  then obtain x where "x \<in> set s" "\<not> py_isspace x" by auto
  then have e: "dropWhile py_isspace (s @ [c]) = dropWhile py_isspace s @ [c]"
    by (rule dropWhile_append1)
  have "dropWhile py_isspace (rev (dropWhile py_isspace s @ [c]))
          = dropWhile py_isspace (rev (dropWhile py_isspace s))"
    using that by simp
  then show ?thesis
    by (simp only: py_strip_def py_lstrip_def py_rstrip_def e)
qed

lemma backtick_not_space: "\<not> py_isspace (CHR 0x60)"
  by (simp add: py_isspace_def)

lemma nl_space: "py_isspace (CHR 0x0A)"
  by (simp add: py_isspace_def)

lemma endswith_iff: "endswith s p \<longleftrightarrow> (\<exists>u. s = u @ p)"
proof
  assume "endswith s p"
  then have "s = take (length s - length p) s @ p"
    using append_take_drop_id [of "length s - length p" s] by (simp add: endswith_def)
  then show "\<exists>u. s = u @ p" ..
next
  assume "\<exists>u. s = u @ p"
  then show "endswith s p" by (auto simp: endswith_def)
qed

lemma fence_body_SomeD:
  assumes "fence_body t = Some g"
  shows "startswith t [CHR 0x60, CHR 0x60, CHR 0x60]"
    and "endswith t [CHR 0x60, CHR 0x60, CHR 0x60]"
    and "length g < length t"
proof -
  show s: "startswith t [CHR 0x60, CHR 0x60, CHR 0x60]"
    using assms by (auto simp: fence_body_def split: if_splits)
  then obtain u where t: "t = [CHR 0x60, CHR 0x60, CHR 0x60] @ u"
    by (auto simp: startswith_iff)
  from assms s obtain rest where
    d: "dropWhile lang_char u = CHR 0x0A # rest" and
    r: "4 \<le> length rest" "endswith rest [CHR 0x60, CHR 0x60, CHR 0x60]" and
    g: "g = take (length rest - 3) rest"
    by (auto simp: fence_body_def t split: if_splits list.splits)
  obtain w where u: "u = w @ CHR 0x0A # rest"
    using takeWhile_dropWhile_id [of lang_char u] d by metis
  from r(2) obtain v where "rest = v @ [CHR 0x60, CHR 0x60, CHR 0x60]"
    by (auto simp: endswith_iff)
  then have "t = ([CHR 0x60, CHR 0x60, CHR 0x60] @ w @ CHR 0x0A # v)
                 @ [CHR 0x60, CHR 0x60, CHR 0x60]"
    by (simp add: t u)
  then have "\<exists>x. t = x @ [CHR 0x60, CHR 0x60, CHR 0x60]"
    by (rule exI [of "\<lambda>x. t = x @ [CHR 0x60, CHR 0x60, CHR 0x60]"])
  then show "endswith t [CHR 0x60, CHR 0x60, CHR 0x60]" by (simp only: endswith_iff)
  have l1: "length g = length rest - 3" by (simp add: g)
  have l2: "length t = 3 + length u" by (simp add: t)
  have l3: "length u = length w + 1 + length rest" by (simp add: u)
  show "length g < length t" using l1 l2 l3 r(1) by arith
qed

lemma strip_fixpoint_iff:
  "strip_markdown_code_fences y = y \<longleftrightarrow> fence_body (py_strip y) = None"
proof (cases "fence_body (py_strip y)")
  case None
  then show ?thesis by (simp add: strip_closed)
next
  case (Some g)
  have "length (py_strip g) \<le> length g" by (rule py_strip_length)
  also have "\<dots> < length (py_strip y)" by (rule fence_body_SomeD(3) [OF Some])
  also have "\<dots> \<le> length y" by (rule py_strip_length)
  finally have "py_strip g \<noteq> y" by auto
  moreover have "y \<noteq> []" using Some by (auto simp: py_strip_def py_lstrip_def py_rstrip_def fence_body_def startswith_def)
  ultimately show ?thesis using Some by (simp add: strip_closed)
qed

subsection \<open>Claims about \<^verbatim>\<open>strip_markdown_code_fences\<close>\<close>

text \<open>
  Claim C4, as amended. Stripping twice gives the same text as stripping once exactly
  when the text stripped once is not itself wrapped whole in a fence, that is, when the
  pattern does not match its trimmed form. A fence nested in a fence loses one layer
  with each application.
\<close>

theorem strip_idempotent_iff:
  "strip_markdown_code_fences (strip_markdown_code_fences x) = strip_markdown_code_fences x
     \<longleftrightarrow> re_match pattern (py_strip (strip_markdown_code_fences x)) = None"
  by (simp add: strip_fixpoint_iff pattern_closed [OF py_strip_last])

text \<open>
  The equivalence at \<^verbatim>\<open>"  ```json\n{}\n```"\<close>, whose first result \<^verbatim>\<open>"{}"\<close> is not fenced.
\<close>

theorem strip_idempotent_iff_witness:
  "strip_markdown_code_fences (strip_markdown_code_fences ''  ```json\<newline>{}\<newline>```'')
     = strip_markdown_code_fences ''  ```json\<newline>{}\<newline>```''
   \<and> re_match pattern (py_strip (strip_markdown_code_fences ''  ```json\<newline>{}\<newline>```'')) = None"
proof -
  have "re_match pattern (py_strip (strip_markdown_code_fences ''  ```json\<newline>{}\<newline>```'')) = None"
    by code_simp
  then show ?thesis using strip_idempotent_iff [of "''  ```json\<newline>{}\<newline>```''"] by simp
qed

text \<open>
  Claim C4 as stated fails on a fence whose body is again a fence: the first
  application returns \<^verbatim>\<open>"```\na\n```"\<close>, the second \<^verbatim>\<open>"a"\<close>.
\<close>

theorem strip_idempotent_counterexample:
  "strip_markdown_code_fences (strip_markdown_code_fences ''```\<newline>```\<newline>a\<newline>```\<newline>```'')
     \<noteq> strip_markdown_code_fences ''```\<newline>```\<newline>a\<newline>```\<newline>```''"
  by code_simp

text \<open>
  Claim C5, as amended. For every text \<open>body\<close>, with or without a triple backtick in
  it, stripping \<^verbatim>\<open>"```\n" + body + "\n```"\<close> returns \<open>body\<close> with its leading and
  trailing whitespace removed: the function trims the captured text. So the result is
  \<open>body\<close> itself when \<open>body\<close> is empty or neither starts nor ends with whitespace.
\<close>

theorem strip_round_trip_trimmed:
  "strip_markdown_code_fences (''```\<newline>'' @ body @ ''\<newline>```'') = py_strip body
   \<and> (body = [] \<or> (\<not> py_isspace (hd body) \<and> \<not> py_isspace (last body))
        \<longrightarrow> strip_markdown_code_fences (''```\<newline>'' @ body @ ''\<newline>```'') = body)"
proof -
  let ?t = "''```\<newline>'' @ body @ ''\<newline>```''"
  have t: "py_strip ?t = ?t"
    by (rule py_strip_id) (simp_all add: backtick_not_space)
  have e: "endswith (body @ ''\<newline>```'') ''```''"
    unfolding endswith_iff by (rule exI [of _ "body @ ''\<newline>''"]) simp
  have fb: "fence_body ?t = Some (body @ ''\<newline>'')"
    using e by (simp add: fence_body_def startswith_def nl_not_lang_char)
  have ne: "?t \<noteq> []" by simp
  have "strip_markdown_code_fences ?t =
          (case fence_body (py_strip ?t) of Some g \<Rightarrow> py_strip g | None \<Rightarrow> ?t)"
    using ne by (simp only: strip_closed if_False)
  also have "\<dots> = py_strip (body @ ''\<newline>'')"
    by (simp only: t fb option.case)
  finally have "strip_markdown_code_fences ?t = py_strip (body @ ''\<newline>'')" .
  then have r: "strip_markdown_code_fences ?t = py_strip body"
    using py_strip_snoc_space [OF nl_space, of body] by simp
  have "py_strip body = body"
    if "body = [] \<or> (\<not> py_isspace (hd body) \<and> \<not> py_isspace (last body))"
  proof (cases "body = []")
    case True
    then show ?thesis by (simp add: py_strip_def py_lstrip_def py_rstrip_def)
  next
    case False
    then show ?thesis using that by (intro py_strip_id) simp_all
  qed
  then show ?thesis using r by (simp only:) blast
qed

text \<open>
  The bodies \<^verbatim>\<open>"a b"\<close> (returned as it is) and \<^verbatim>\<open>" a"\<close> (returned trimmed).
\<close>

theorem strip_round_trip_trimmed_witness:
  "(''a b'' = [] \<or> (\<not> py_isspace (hd ''a b'') \<and> \<not> py_isspace (last ''a b'')))
   \<and> strip_markdown_code_fences (''```\<newline>'' @ ''a b'' @ ''\<newline>```'') = ''a b''
   \<and> strip_markdown_code_fences (''```\<newline>'' @ '' a'' @ ''\<newline>```'') = ''a''"
proof -
  have h: "''a b'' = [] \<or> (\<not> py_isspace (hd ''a b'') \<and> \<not> py_isspace (last ''a b''))"
    by (simp add: py_isspace_def)
  have e: "py_strip '' a'' = ''a''" by code_simp
  have c1: "strip_markdown_code_fences (''```\<newline>'' @ ''a b'' @ ''\<newline>```'') = ''a b''"
    using strip_round_trip_trimmed [of "''a b''"] h by blast
  have c2: "strip_markdown_code_fences (''```\<newline>'' @ '' a'' @ ''\<newline>```'') = ''a''"
    using strip_round_trip_trimmed [of "'' a''"] e by metis
  show ?thesis using h c1 c2 by blast
qed

text \<open>
  Claim C5 as stated fails on the body \<^verbatim>\<open>" a"\<close>, which has no backtick at all: the
  result is \<^verbatim>\<open>"a"\<close>.
\<close>

theorem strip_round_trip_counterexample:
  "\<not> contains '' a'' ''```''
   \<and> strip_markdown_code_fences (''```\<newline>'' @ '' a'' @ ''\<newline>```'') \<noteq> '' a''"
  by code_simp

text \<open>
  Claim C6. A text whose trimmed form does not both start with a triple backtick and
  end with a triple backtick is returned as it is, untrimmed.
\<close>

theorem strip_unfenced_unchanged:
  assumes "\<not> (startswith (py_strip text) ''```'' \<and> endswith (py_strip text) ''```'')"
  shows "strip_markdown_code_fences text = text"
proof -
  have "fence_body (py_strip text) = None"
    using assms fence_body_SomeD(1,2) [of "py_strip text"]
    by (cases "fence_body (py_strip text)") auto
  then show ?thesis by (simp add: strip_fixpoint_iff)
qed

text \<open>
  The two examples of the specification: a fence after a prefix, and a fence that is
  not closed.
\<close>

theorem strip_unfenced_unchanged_witness:
  "\<not> (startswith (py_strip ''some text\<newline>```json\<newline>{}\<newline>```'') ''```''
        \<and> endswith (py_strip ''some text\<newline>```json\<newline>{}\<newline>```'') ''```'')
   \<and> strip_markdown_code_fences ''some text\<newline>```json\<newline>{}\<newline>```''
        = ''some text\<newline>```json\<newline>{}\<newline>```''
   \<and> \<not> (startswith (py_strip ''```json\<newline>{}'') ''```'' \<and> endswith (py_strip ''```json\<newline>{}'') ''```'')
   \<and> strip_markdown_code_fences ''```json\<newline>{}'' = ''```json\<newline>{}''"
proof -
  have a: "\<not> (startswith (py_strip ''some text\<newline>```json\<newline>{}\<newline>```'') ''```''
        \<and> endswith (py_strip ''some text\<newline>```json\<newline>{}\<newline>```'') ''```'')"
    by code_simp
  have b: "\<not> (startswith (py_strip ''```json\<newline>{}'') ''```'' \<and> endswith (py_strip ''```json\<newline>{}'') ''```'')"
    by code_simp
  show ?thesis
    using a b strip_unfenced_unchanged [OF a] strip_unfenced_unchanged [OF b] by simp
qed

text \<open>
  Claim C9. The result is never longer than the input: it is the input itself or the
  trimmed text of the group captured by one of the two patterns in the trimmed input.
\<close>

theorem strip_never_longer:
  "length (strip_markdown_code_fences t) \<le> length t
   \<and> (strip_markdown_code_fences t = t
      \<or> (\<exists>g. (re_match pattern (py_strip t) = Some g \<or> re_match pattern_no_lang (py_strip t) = Some g)
             \<and> strip_markdown_code_fences t = py_strip g))"
proof
  show "length (strip_markdown_code_fences t) \<le> length t"
  proof (cases "fence_body (py_strip t)")
    case None
    then show ?thesis by (simp add: strip_closed)
  next
    case (Some g)
    have "length (py_strip g) \<le> length g" by (rule py_strip_length)
    also have "\<dots> < length (py_strip t)" by (rule fence_body_SomeD(3) [OF Some])
    also have "\<dots> \<le> length t" by (rule py_strip_length)
    finally show ?thesis using Some by (simp add: strip_closed)
  qed
  show "strip_markdown_code_fences t = t
      \<or> (\<exists>g. (re_match pattern (py_strip t) = Some g \<or> re_match pattern_no_lang (py_strip t) = Some g)
             \<and> strip_markdown_code_fences t = py_strip g)"
    by (auto simp: strip_markdown_code_fences_def Let_def split: option.splits)
qed

text \<open>
  Claim C10. An opening marker, a tag without a line feed (a language tag, or none),
  one line feed and the closing marker: the body is empty, no pattern matches, and
  the text is returned as it is.
\<close>

theorem strip_empty_body_unchanged:
  assumes "CHR 0x0A \<notin> set tag"
  shows "strip_markdown_code_fences (''```'' @ tag @ ''\<newline>```'') = ''```'' @ tag @ ''\<newline>```''"
proof -
  let ?t = "''```'' @ tag @ ''\<newline>```''"
  have t: "py_strip ?t = ?t"
    by (rule py_strip_id) (simp_all add: backtick_not_space)
  have "fence_body ?t = None"
  proof (cases "dropWhile lang_char tag")
    case Nil
    then have "dropWhile lang_char (tag @ ''\<newline>```'') = ''\<newline>```''"
      by (simp add: dropWhile_append nl_not_lang_char)
    then show ?thesis by (simp add: fence_body_def)
  next
    case (Cons c r)
    then have "c \<in> set tag" using set_dropWhileD [of c lang_char tag] by simp
    then have c: "c \<noteq> CHR 0x0A" using assms by auto
    have "\<not> (\<forall>x\<in>set tag. lang_char x)"
      using Cons dropWhile_eq_Nil_conv [of lang_char tag] by auto
    then obtain x where "x \<in> set tag" "\<not> lang_char x" by auto
    then have "dropWhile lang_char (tag @ ''\<newline>```'') = dropWhile lang_char tag @ ''\<newline>```''"
      by (rule dropWhile_append1)
    then have "dropWhile lang_char (tag @ ''\<newline>```'') = c # r @ ''\<newline>```''"
      by (simp only: Cons append_Cons)
    then show ?thesis using c by (simp add: fence_body_def)
  qed
  then have "fence_body (py_strip ?t) = None" by (simp only: t)
  then show ?thesis by (simp only: strip_fixpoint_iff)
qed

text \<open>
  The two examples of the claim, \<^verbatim>\<open>"```json\n```"\<close> and \<^verbatim>\<open>"```\n```"\<close>.
\<close>

theorem strip_empty_body_unchanged_witness:
  "CHR 0x0A \<notin> set ''json''
   \<and> strip_markdown_code_fences (''```'' @ ''json'' @ ''\<newline>```'') = ''```'' @ ''json'' @ ''\<newline>```''
   \<and> CHR 0x0A \<notin> set ''''
   \<and> strip_markdown_code_fences (''```'' @ '''' @ ''\<newline>```'') = ''```'' @ '''' @ ''\<newline>```''"
proof -
  have a: "CHR 0x0A \<notin> set ''json''" by simp
  have b: "CHR 0x0A \<notin> set ''''" by simp
  show ?thesis
    using a b strip_empty_body_unchanged [OF a] strip_empty_body_unchanged [OF b] by simp
qed

section \<open>Properties of the normaliser\<close>

subsection \<open>The branches of \<^verbatim>\<open>normalize_result\<close>\<close>

lemma output_of_object:
  "output_of (PObj attrs dump rp elems) =
     (case map_of attrs ''content'' of
        Some (Inl e) \<Rightarrow> Inl e
      | Some (Inr c) \<Rightarrow> extract_text c
      | None \<Rightarrow>
     (case map_of attrs ''choices'' of
        Some (Inl e) \<Rightarrow> Inl e
      | Some (Inr choices) \<Rightarrow>
          (case (case sequence choices of
                   Some cs \<Rightarrow> joined (collect (map choice_text cs))
                 | None \<Rightarrow> extract_text choices) of
             Inl e \<Rightarrow> extract_text (PObj attrs dump rp elems)
           | Inr out \<Rightarrow> Inr out)
      | None \<Rightarrow>
     (case map_of attrs ''generations'' of
        Some (Inl e) \<Rightarrow> Inl e
      | Some (Inr gens) \<Rightarrow>
          (case py_iter gens of
             Inl e \<Rightarrow> Inr []
           | Inr gs \<Rightarrow>
               (case collect (map generation_texts gs) of
                  Inl e \<Rightarrow> Inr []
                | Inr texts \<Rightarrow> Inr (join_nonempty (concat texts))))
      | None \<Rightarrow> extract_text (PObj attrs dump rp elems))))"
  by (simp add: output_of_def getattr_def cong: option.case_cong sum.case_cong)

lemma output_of_dict:
  "output_of (PDict d) =
     (case (case map_of d (KStr ''choices'') of
              Some ch \<Rightarrow> sequence ch | None \<Rightarrow> None) of
        Some items \<Rightarrow> joined (collect (map item_text items))
      | None \<Rightarrow>
          (case map_of d (KStr ''message'') of
             Some m \<Rightarrow> extract_text m
           | None \<Rightarrow> extract_text (PDict d)))"
  by (simp add: output_of_def getattr_def)

lemma normalize_result_stripped: "normalize_result v = stripped_result (output_of v)"
  by (simp add: normalize_result_def stripped_result_def)

lemma field_object: "\<not> is_dict c \<Longrightarrow> field c name = getattr c name"
  by (cases c) (simp_all add: field_def is_dict_def)

lemma field_dict: "field (PDict d) name = map_option Inr (map_of d (KStr name))"
  by (simp add: field_def)

lemma spec_choice_text_object: "\<not> is_dict c \<Longrightarrow> spec_choice_text c = choice_text c"
  by (simp add: spec_choice_text_def choice_text_def field_object cong: option.case_cong)

lemma spec_choice_text_dict: "is_dict c \<Longrightarrow> spec_choice_text c = item_text c"
  by (cases c)
     (auto simp: spec_choice_text_def item_text_def field_dict is_dict_def split: option.splits)

lemma choice_text_dict: "is_dict c \<Longrightarrow> choice_text c = extract_text c"
  by (cases c) (simp_all add: choice_text_def getattr_def is_dict_def)

lemma collect_map_strings: "collect (map (\<lambda>s. Inr s) ss) = Inr ss"
  by (induction ss) simp_all

lemma extract_text_strings: "extract_text (PList (map PStr ss)) = Inr (join_nonempty ss)"
proof -
  have "map extract_text (map PStr ss) = map (\<lambda>s. Inr s) ss" by simp
  then show ?thesis by (simp add: joined_def collect_map_strings del: map_map)
qed

lemma output_of_object_choices:
  assumes "getattr result ''content'' = None"
    and "getattr result ''choices'' = Some (Inr ch)"
    and "sequence ch = Some cs"
    and "collect (map choice_text cs) = Inr texts"
  shows "output_of result = Inr (join_nonempty texts)"
proof (cases result)
  case (PObj attrs dump rp elems)
  then show ?thesis using assms
    by (simp add: output_of_object getattr_def joined_def)
qed (use assms in \<open>simp_all add: getattr_def\<close>)

lemma output_of_dict_choices:
  assumes "map_of d (KStr ''choices'') = Some ch" and "sequence ch = Some cs"
  shows "output_of (PDict d) = joined (collect (map item_text cs))"
  using assms by (simp add: output_of_dict)

lemma map_choice_text_objects:
  "\<forall>c\<in>set cs. \<not> is_dict c \<Longrightarrow> map choice_text cs = map spec_choice_text cs"
  by (simp add: spec_choice_text_object)

lemma map_item_text_dicts:
  "\<forall>c\<in>set cs. is_dict c \<Longrightarrow> map item_text cs = map spec_choice_text cs"
  by (simp add: spec_choice_text_dict)

subsection \<open>The extraction does not look at backticks\<close>

lemma swap_tick_other: "c \<noteq> CHR 0x60 \<Longrightarrow> c \<noteq> CHR ''~'' \<Longrightarrow> swap_tick c = c"
  by (simp add: swap_tick_def)

lemma swap_tick_inj: "swap_tick a = swap_tick b \<longleftrightarrow> a = b"
  by (auto simp: swap_tick_def split: if_splits)

lemma renamed_inj: "renamed s = renamed t \<longleftrightarrow> s = t"
  unfolding renamed_def by (rule inj_map_eq_map) (simp add: inj_on_def swap_tick_inj)

lemma renamed_append: "renamed (a @ b) = renamed a @ renamed b"
  by (simp add: renamed_def)

lemma renamed_Nil_iff: "renamed s = [] \<longleftrightarrow> s = []"
  by (simp add: renamed_def)

lemma renamed_plain: "\<forall>c\<in>set s. c \<noteq> CHR 0x60 \<and> c \<noteq> CHR ''~'' \<Longrightarrow> renamed s = s"
  by (induction s) (simp_all add: renamed_def swap_tick_other)

lemma digit_char: "(k::nat) < 10 \<Longrightarrow> char_of (48 + k) \<noteq> CHR 0x60 \<and> char_of (48 + k) \<noteq> CHR ''~''"
proof (intro conjI notI)
  assume k: "k < 10" and "char_of (48 + k) = CHR 0x60"
  then have "(of_char (char_of (48 + k)) :: nat) = of_char (CHR 0x60)" by simp
  then show False using k by (simp add: of_char_of)
next
  assume k: "k < 10" and "char_of (48 + k) = CHR ''~''"
  then have "(of_char (char_of (48 + k)) :: nat) = of_char (CHR ''~'')" by simp
  then show False using k by (simp add: of_char_of)
qed

lemma hex_char: "(k::nat) < 16 \<Longrightarrow> hex_digit k \<noteq> CHR 0x60 \<and> hex_digit k \<noteq> CHR ''~''"
proof (cases "k < 10")
  case True
  then show ?thesis using digit_char [of k] by (simp add: hex_digit_def)
next
  case False
  assume k: "k < 16"
  show ?thesis
  proof (intro conjI notI)
    assume "hex_digit k = CHR 0x60"
    then have "(of_char (char_of (87 + k)) :: nat) = of_char (CHR 0x60)"
      using False by (simp add: hex_digit_def)
    then show False using k False by (simp add: of_char_of)
  next
    assume "hex_digit k = CHR ''~''"
    then have "(of_char (char_of (87 + k)) :: nat) = of_char (CHR ''~'')"
      using False by (simp add: hex_digit_def)
    then show False using k False by (simp add: of_char_of)
  qed
qed

lemma digits_plain: "\<forall>c\<in>set (digits n). c \<noteq> CHR 0x60 \<and> c \<noteq> CHR ''~''"
proof (induction n rule: digits.induct)
  case (1 n)
  show ?case
  proof (cases "n < 10")
    case True
    then show ?thesis using digit_char [of n] by (subst digits.simps) simp
  next
    case False
    have "n mod 10 < 10" by simp
    then show ?thesis
      using False 1 digit_char [of "n mod 10"] by (subst digits.simps) auto
  qed
qed

lemma renamed_digits: "renamed (digits n) = digits n"
  by (rule renamed_plain [OF digits_plain])

lemma renamed_str_int: "renamed_result (str_int i) = str_int i"
  by (simp add: renamed_result_def str_int_def Let_def renamed_digits)
     (simp add: renamed_def swap_tick_def renamed_digits [unfolded renamed_def])

lemma renamed_json_escape: "json_escape (swap_tick c) = renamed (json_escape c)"
proof (cases "c = CHR 0x60 \<or> c = CHR ''~''")
  case True
  then show ?thesis by (auto simp: json_escape_def swap_tick_def renamed_def)
next
  case False
  then have c: "swap_tick c = c" by (simp add: swap_tick_other)
  have h: "\<forall>x\<in>set (json_escape c). x \<noteq> CHR 0x60 \<and> x \<noteq> CHR ''~''"
  proof -
    have "(of_char c :: nat) mod 256 < 256" by (rule mod_less_divisor) simp
    then have "(of_char c :: nat) < 256" by (simp only: of_char_mod_256)
    then have "(of_char c :: nat) div 16 < 16" by arith
    then show ?thesis
      using False hex_char [of "of_char c div 16"] hex_char [of "of_char c mod 16"]
      by (simp add: json_escape_def Let_def)
  qed
  show ?thesis unfolding c by (rule renamed_plain [OF h, symmetric])
qed

lemma renamed_json_string: "json_string (renamed s) = renamed (json_string s)"
proof -
  have "concat (map json_escape (renamed s)) = renamed (concat (map json_escape s))"
    by (induction s) (simp_all add: renamed_def renamed_json_escape [unfolded renamed_def])
  then show ?thesis by (simp add: json_string_def renamed_append) (simp add: renamed_def swap_tick_def)
qed

lemma renamed_py_join: "renamed (py_join sep xs) = py_join (renamed sep) (map renamed xs)"
  by (induction sep xs rule: py_join.induct) (simp_all add: renamed_append, simp add: renamed_def)

lemma renamed_json_dumps:
  "json_dumps (map (map_prod renamed renamed) d) = renamed (json_dumps d)"
proof -
  have a: "renamed '', '' = '', ''" "renamed '': '' = '': ''" "renamed ''{'' = ''{''" "renamed ''}'' = ''}''"
    by (simp_all add: renamed_def swap_tick_def)
  have "map (\<lambda>(k, v). json_string k @ '': '' @ json_string v) (map (map_prod renamed renamed) d)
          = map renamed (map (\<lambda>(k, v). json_string k @ '': '' @ json_string v) d)"
  proof (induction d)
    case Nil
    show ?case by simp
  next
    case (Cons x d)
    obtain k v where x: "x = (k, v)" by (cases x)
    have pair: "json_string (renamed k) @ '': '' @ json_string (renamed v)
                  = renamed (json_string k @ '': '' @ json_string v)"
      by (simp only: renamed_append renamed_json_string a)
    show ?case using Cons by (simp only: x list.map map_prod_simp prod.case pair)
  qed
  then show ?thesis
    by (simp only: json_dumps_def renamed_append renamed_py_join a)
qed

lemma dict_set_map:
  assumes "inj f"
  shows "dict_set (map (map_prod f g) d) (f k) (g v) = map (map_prod f g) (dict_set d k v)"
  using assms by (induction d) (auto simp: inj_eq)

lemma dict_of_map:
  assumes "inj f"
  shows "dict_of (map (map_prod f g) kvs) = map (map_prod f g) (dict_of kvs)"
proof -
  have "foldl (\<lambda>d (k, v). dict_set d k v) (map (map_prod f g) acc) (map (map_prod f g) kvs)
          = map (map_prod f g) (foldl (\<lambda>d (k, v). dict_set d k v) acc kvs)" for acc
  proof (induction kvs arbitrary: acc)
    case Nil
    show ?case by simp
  next
    case (Cons kv kvs)
    obtain k v where kv: "kv = (k, v)" by (cases kv)
    show ?case using Cons [of "dict_set acc k v"] by (simp add: kv dict_set_map [OF assms])
  qed
  from this [of "[]"] show ?thesis by (simp add: dict_of_def)
qed

lemma inj_renamed: "inj renamed"
  by (simp add: inj_on_def renamed_inj)

lemma rename_key_inj: "rename_key a = rename_key b \<longleftrightarrow> a = b"
  by (cases a; cases b) (simp_all add: rename_key_def renamed_inj)

lemma renamed_join_nonempty: "join_nonempty (map renamed ps) = renamed (join_nonempty ps)"
proof -
  have "filter (\<lambda>p. p \<noteq> []) (map renamed ps) = map renamed (filter (\<lambda>p. p \<noteq> []) ps)"
    by (induction ps) (simp_all add: renamed_Nil_iff)
  moreover have "renamed [CHR 0x0A] = [CHR 0x0A]" by (simp add: renamed_def swap_tick_def)
  ultimately show ?thesis by (simp add: join_nonempty_def renamed_py_join)
qed

lemma collect_map_sum: "collect (map (map_sum id f) rs) = map_sum id (map f) (collect rs)"
proof (induction rs)
  case Nil
  show ?case by simp
next
  case (Cons r rs)
  then show ?case by (cases r; cases "collect rs") simp_all
qed

lemma renamed_joined:
  "joined (map_sum id (map renamed) r) = renamed_result (joined r)"
  by (cases r) (simp_all add: joined_def renamed_result_def renamed_join_nonempty)

lemma renamed_absorbed: "absorbed (renamed_result r) = renamed_result (absorbed r)"
  by (cases r) (simp_all add: absorbed_def renamed_result_def renamed_def)

lemma map_of_rename_key:
  "map_of (map (map_prod rename_key g) items) (rename_key k) = map_option g (map_of items k)"
  by (induction items) (auto simp: rename_key_inj)

lemma rename_key_name:
  "\<forall>c\<in>set name. c \<noteq> CHR 0x60 \<and> c \<noteq> CHR ''~'' \<Longrightarrow> rename_key (KStr name) = KStr name"
  by (simp add: rename_key_def renamed_plain)

lemma map_of_renamed_name:
  assumes "\<forall>c\<in>set name. c \<noteq> CHR 0x60 \<and> c \<noteq> CHR ''~''"
  shows "map_of (map (map_prod rename_key g) items) (KStr name) = map_option g (map_of items (KStr name))"
  using map_of_rename_key [of g items "KStr name"] rename_key_name [OF assms] by simp

lemma map_of_attrs: "map_of (map (map_prod id h) attrs) n = map_option h (map_of attrs n)"
  by (induction attrs) auto

lemma rename_value_PNone: "rename_value d = PNone \<longleftrightarrow> d = PNone"
  by (cases d) simp_all

lemma renamed_model_dump:
  "model_dump (map_prod (map_sum id rename_value) (map_sum id rename_value) calls)
     = map_sum id rename_value (model_dump calls)"
  by (cases calls rule: model_dump.cases) simp_all

lemma renamed_str_key: "str_key (rename_key k) = renamed_result (str_key k)"
  by (cases k) (simp_all add: str_key_def rename_key_def renamed_result_def renamed_str_int [unfolded renamed_result_def])

lemma extract_text_object:
  "extract_text (PObj attrs dump rp elems) =
     (case map_of attrs ''content'' of
        Some (Inl e) \<Rightarrow> Inl e
      | Some (Inr c) \<Rightarrow> absorbed (extract_text c)
      | None \<Rightarrow>
          (case map_of attrs ''text'' of
             Some (Inl e) \<Rightarrow> Inl e
           | Some (Inr t) \<Rightarrow> absorbed (extract_text t)
           | None \<Rightarrow>
               (case dump of
                  None \<Rightarrow> absorbed rp
                | Some calls \<Rightarrow>
                    (case model_dump calls of
                       Inl e \<Rightarrow> Inl e
                     | Inr d \<Rightarrow> if d = PNone then absorbed rp else extract_text d))))"
  by (simp split: option.splits sum.splits pyval.splits del: extract_text.simps(1-8))

lemma renamed_result_simps:
  "renamed_result (Inl e) = Inl e" "renamed_result (Inr t) = Inr (renamed t)"
  by (simp_all add: renamed_result_def)

lemma absorbed_rp: "absorbed (map_sum id renamed rp) = renamed_result (absorbed rp)"
  using renamed_absorbed [of rp] by (simp add: renamed_result_def)

lemma extract_text_renamed: "extract_text (rename_value v) = renamed_result (extract_text v)"
proof (induction v rule: extract_text.induct)
  case 1
  show ?case by (simp add: renamed_result_def renamed_def)
next
  case (2 s)
  show ?case by (simp add: renamed_result_def)
next
  case (3 i)
  show ?case by (simp add: renamed_str_int)
next
  case (4 r)
  show ?case by (simp add: renamed_result_def)
next
  case (5 b)
  show ?case by (simp add: renamed_result_def renamed_def swap_tick_def)
next
  case (6 items)
  let ?F = "\<lambda>(k, v). case str_key k of Inl e \<Rightarrow> Inl e
             | Inr name \<Rightarrow> (case extract_text v of Inl e \<Rightarrow> Inl e | Inr t \<Rightarrow> Inr (name, t))"
  have m: "map_of (map (map_prod rename_key rename_value) items) (KStr ''content'')
             = map_option rename_value (map_of items (KStr ''content''))"
    by (rule map_of_renamed_name) simp
  show ?case
  proof (cases "map_of items (KStr ''content'')")
    case (Some v)
    then show ?thesis using "6.IH"(2) [OF Some] by (simp add: m)
  next
    case None
    have "?F (map_prod rename_key rename_value x) = map_sum id (map_prod renamed renamed) (?F x)"
      if "x \<in> set items" for x
    proof -
      obtain k y where x: "x = (k, y)" by (cases x)
      show ?thesis
      proof (cases "str_key k")
        case (Inl e)
        then show ?thesis by (simp add: x renamed_str_key renamed_result_simps)
      next
        case (Inr name)
        have "extract_text (rename_value y) = renamed_result (extract_text y)"
          using "6.IH"(1) [OF None that x [symmetric] Inr] .
        then show ?thesis
          by (cases "extract_text y") (simp_all add: x renamed_str_key Inr renamed_result_simps)
      qed
    qed
    then have "map ?F (map (map_prod rename_key rename_value) items)
                 = map (map_sum id (map_prod renamed renamed)) (map ?F items)"
      by (simp del: map_prod_simp)
    then have c: "collect (map ?F (map (map_prod rename_key rename_value) items))
                 = map_sum id (map (map_prod renamed renamed)) (collect (map ?F items))"
      by (simp only: collect_map_sum)
    show ?thesis
    proof (cases "collect (map ?F items)")
      case (Inl e)
      then show ?thesis using None c by (simp add: m renamed_result_simps)
    next
      case (Inr kvs)
      then show ?thesis using None c
        by (simp add: m renamed_result_simps dict_of_map [OF inj_renamed] renamed_json_dumps)
    qed
  qed
next
  case (7 vs)
  have "map extract_text (map rename_value vs) = map (map_sum id renamed) (map extract_text vs)"
    using 7 by (simp add: renamed_result_def)
  then show ?case by (simp only: rename_value.simps extract_text.simps collect_map_sum renamed_joined)
next
  case (8 vs)
  have "map extract_text (map rename_value vs) = map (map_sum id renamed) (map extract_text vs)"
    using 8 by (simp add: renamed_result_def)
  then show ?case by (simp only: rename_value.simps extract_text.simps collect_map_sum renamed_joined)
next
  case (9 attrs dump rp elems)
  have ih_dump: "extract_text (rename_value d) = renamed_result (extract_text d)"
    if "map_of attrs ''content'' = None" "map_of attrs ''text'' = None" "dump = Some calls"
       "model_dump calls = Inr d" "d \<noteq> PNone" for calls d
    using that "9.IH"(1-8) [OF that(1-4)] by (cases d) blast+
  show ?case
  proof (cases "map_of attrs ''content''")
    case (Some a)
    show ?thesis
    proof (cases a)
      case (Inl e)
      then show ?thesis using Some
        by (simp add: extract_text_object map_of_attrs renamed_result_simps del: extract_text.simps)
    next
      case (Inr c)
      then show ?thesis using Some "9.IH"(10) [OF Some Inr]
        by (simp add: extract_text_object map_of_attrs renamed_absorbed del: extract_text.simps)
    qed
  next
    case None
    note no_content = None
    show ?thesis
    proof (cases "map_of attrs ''text''")
      case (Some a)
      show ?thesis
      proof (cases a)
        case (Inl e)
        then show ?thesis using Some no_content
          by (simp add: extract_text_object map_of_attrs renamed_result_simps del: extract_text.simps)
      next
        case (Inr t)
        then show ?thesis using Some no_content "9.IH"(9) [OF no_content Some Inr]
          by (simp add: extract_text_object map_of_attrs renamed_absorbed del: extract_text.simps)
      qed
    next
      case None
      note no_text = None
      show ?thesis
      proof (cases dump)
        case None
        then show ?thesis using no_content no_text
          by (simp add: extract_text_object map_of_attrs absorbed_rp del: extract_text.simps)
      next
        case (Some calls)
        show ?thesis
        proof (cases "model_dump calls")
          case (Inl e)
          then show ?thesis using no_content no_text Some
            by (simp add: extract_text_object map_of_attrs renamed_model_dump renamed_result_simps
                  del: extract_text.simps)
        next
          case (Inr d)
          show ?thesis
          proof (cases "d = PNone")
            case True
            then show ?thesis using no_content no_text Some Inr
              by (simp add: extract_text_object map_of_attrs renamed_model_dump absorbed_rp
                    del: extract_text.simps)
          next
            case False
            then show ?thesis using no_content no_text Some Inr ih_dump [OF no_content no_text Some Inr False]
              by (simp add: extract_text_object map_of_attrs renamed_model_dump rename_value_PNone
                    del: extract_text.simps)
          qed
        qed
      qed
    qed
  qed
qed

lemma getattr_renamed:
  "getattr (rename_value v) n = map_option (map_sum id rename_value) (getattr v n)"
  by (cases v) (simp_all add: getattr_def map_of_attrs)

lemma sequence_renamed: "sequence (rename_value v) = map_option (map rename_value) (sequence v)"
  by (cases v) (simp_all add: sequence_def)

lemma choice_text_renamed: "choice_text (rename_value c) = renamed_result (choice_text c)"
proof (cases "getattr c ''message''")
  case None
  note no_message = None
  show ?thesis
  proof (cases "getattr c ''text''")
    case None
    then show ?thesis using no_message
      by (simp add: choice_text_def getattr_renamed extract_text_renamed)
  next
    case (Some a)
    then show ?thesis using no_message
      by (cases a) (simp_all add: choice_text_def getattr_renamed extract_text_renamed renamed_result_simps)
  qed
next
  case (Some a)
  then show ?thesis
    by (cases a) (simp_all add: choice_text_def getattr_renamed extract_text_renamed renamed_result_simps)
qed

lemma generation_text_renamed:
  "generation_text (rename_value c) = renamed_result (generation_text c)"
proof (cases "getattr c ''text''")
  case None
  note no_text = None
  show ?thesis
  proof (cases "getattr c ''content''")
    case None
    then show ?thesis using no_text
      by (simp add: generation_text_def getattr_renamed extract_text_renamed)
  next
    case (Some a)
    then show ?thesis using no_text
      by (cases a) (simp_all add: generation_text_def getattr_renamed extract_text_renamed renamed_result_simps)
  qed
next
  case (Some a)
  then show ?thesis
    by (cases a) (simp_all add: generation_text_def getattr_renamed extract_text_renamed renamed_result_simps)
qed

lemma item_text_dict:
  "item_text (PDict d) =
     (case map_of d (KStr ''message'') of
        Some m \<Rightarrow> extract_text m
      | None \<Rightarrow>
          (case map_of d (KStr ''text'') of
             Some t \<Rightarrow> extract_text t
           | None \<Rightarrow> extract_text (PDict d)))"
  by (simp add: item_text_def)

lemma item_text_other:
  "\<not> is_dict c \<Longrightarrow>
   item_text c =
     (case getattr c ''message'' of
        Some (Inl e) \<Rightarrow> Inl e
      | Some (Inr m) \<Rightarrow> extract_text m
      | None \<Rightarrow> extract_text c)"
  by (cases c) (simp_all add: item_text_def is_dict_def cong: option.case_cong sum.case_cong)

lemma is_dict_renamed: "is_dict (rename_value c) = is_dict c"
  by (cases c) (simp_all add: is_dict_def)

lemma item_text_renamed: "item_text (rename_value c) = renamed_result (item_text c)"
proof (cases c)
  case (PDict d)
  have m: "map_of (map (map_prod rename_key rename_value) d) (KStr ''message'')
             = map_option rename_value (map_of d (KStr ''message''))"
    by (rule map_of_renamed_name) simp
  have t: "map_of (map (map_prod rename_key rename_value) d) (KStr ''text'')
             = map_option rename_value (map_of d (KStr ''text''))"
    by (rule map_of_renamed_name) simp
  have e: "extract_text (PDict (map (map_prod rename_key rename_value) d))
             = renamed_result (extract_text (PDict d))"
    using extract_text_renamed [of "PDict d"] by simp
  show ?thesis
    unfolding PDict rename_value.simps item_text_dict m t e
    by (simp add: extract_text_renamed split: option.splits del: extract_text.simps)
next
  case PNone
  then show ?thesis by (simp add: item_text_def getattr_def renamed_result_def renamed_def)
next
  case (PStr s)
  then show ?thesis by (simp add: item_text_def getattr_def renamed_result_def)
next
  case (PInt i)
  then show ?thesis by (simp add: item_text_def getattr_def renamed_str_int)
next
  case (PFloat r)
  then show ?thesis by (simp add: item_text_def getattr_def renamed_result_def)
next
  case (PBool b)
  then show ?thesis using extract_text_renamed [of "PBool b"]
    by (simp add: item_text_def getattr_def)
next
  case (PList vs)
  then show ?thesis using extract_text_renamed [of "PList vs"]
    by (simp add: item_text_def getattr_def del: extract_text.simps)
next
  case (PTuple vs)
  then show ?thesis using extract_text_renamed [of "PTuple vs"]
    by (simp add: item_text_def getattr_def del: extract_text.simps)
next
  case (PObj attrs dump rp elems)
  then have n: "\<not> is_dict c" "\<not> is_dict (rename_value c)" by (simp_all add: is_dict_def)
  show ?thesis
    unfolding item_text_other [OF n(1)] item_text_other [OF n(2)] getattr_renamed
    by (cases "getattr c ''message''")
       (auto simp: extract_text_renamed renamed_result_simps split: sum.splits
             simp del: extract_text.simps)
qed

lemma generation_texts_renamed:
  "generation_texts (rename_value g) = map_sum id (map renamed) (generation_texts g)"
proof (cases "sequence g")
  case None
  then show ?thesis
    by (cases "generation_text g")
       (simp_all add: generation_texts_def sequence_renamed generation_text_renamed
          renamed_result_simps)
next
  case (Some es)
  have "map generation_text (map rename_value es) = map (map_sum id renamed) (map generation_text es)"
    by (simp add: generation_text_renamed renamed_result_def)
  then show ?thesis using Some
    by (simp only: generation_texts_def sequence_renamed option.map option.case collect_map_sum)
qed

lemma key_value_renamed: "key_value (rename_key k) = rename_value (key_value k)"
  by (cases k) (simp_all add: key_value_def rename_key_def)

lemma py_iter_renamed: "py_iter (rename_value v) = map_sum id (map rename_value) (py_iter v)"
  by (cases v) (simp_all add: py_iter_def key_value_renamed renamed_def comp_def)

lemma generations_renamed:
  "(case py_iter (rename_value gens) of
      Inl e \<Rightarrow> Inr []
    | Inr gs \<Rightarrow>
        (case collect (map generation_texts gs) of
           Inl e \<Rightarrow> Inr []
         | Inr texts \<Rightarrow> Inr (join_nonempty (concat texts))))
   = renamed_result
      (case py_iter gens of
         Inl e \<Rightarrow> Inr []
       | Inr gs \<Rightarrow>
           (case collect (map generation_texts gs) of
              Inl e \<Rightarrow> Inr []
            | Inr texts \<Rightarrow> Inr (join_nonempty (concat texts))))"
proof (cases "py_iter gens")
  case (Inl e)
  then show ?thesis by (simp add: py_iter_renamed renamed_result_def renamed_def)
next
  case (Inr gs)
  have "map generation_texts (map rename_value gs)
          = map (map_sum id (map renamed)) (map generation_texts gs)"
    by (simp add: generation_texts_renamed)
  then have c: "collect (map generation_texts (map rename_value gs))
          = map_sum id (map (map renamed)) (collect (map generation_texts gs))"
    by (simp only: collect_map_sum)
  have j: "join_nonempty (concat (map (map renamed) texts)) = renamed (join_nonempty (concat texts))"
    for texts
    using renamed_join_nonempty [of "concat texts"] by (simp add: map_concat)
  show ?thesis
    by (cases "collect (map generation_texts gs)")
       (simp_all add: py_iter_renamed Inr c j renamed_result_def renamed_def del: map_map)
qed

lemma choices_renamed:
  "(case sequence (rename_value choices) of
      Some cs \<Rightarrow> joined (collect (map choice_text cs))
    | None \<Rightarrow> extract_text (rename_value choices))
   = renamed_result
      (case sequence choices of
         Some cs \<Rightarrow> joined (collect (map choice_text cs))
       | None \<Rightarrow> extract_text choices)"
proof (cases "sequence choices")
  case None
  then show ?thesis by (simp add: sequence_renamed extract_text_renamed)
next
  case (Some cs)
  have "map choice_text (map rename_value cs) = map (map_sum id renamed) (map choice_text cs)"
    by (simp add: choice_text_renamed renamed_result_def)
  then show ?thesis using Some
    by (simp only: sequence_renamed option.map option.case collect_map_sum renamed_joined)
qed

lemma items_renamed:
  "joined (collect (map item_text (map rename_value items)))
     = renamed_result (joined (collect (map item_text items)))"
proof -
  have "map item_text (map rename_value items) = map (map_sum id renamed) (map item_text items)"
    by (simp add: item_text_renamed renamed_result_def)
  then show ?thesis by (simp only: collect_map_sum renamed_joined)
qed

lemma output_of_renamed: "output_of (rename_value v) = renamed_result (output_of v)"
proof (cases v)
  case PNone
  then show ?thesis by (simp add: output_of_def renamed_result_def renamed_def)
next
  case (PStr s)
  then show ?thesis by (simp add: output_of_def renamed_result_def)
next
  case (PInt i)
  then show ?thesis by (simp add: output_of_def getattr_def renamed_str_int)
next
  case (PFloat r)
  then show ?thesis by (simp add: output_of_def getattr_def renamed_result_def)
next
  case (PBool b)
  then show ?thesis using extract_text_renamed [of "PBool b"]
    by (simp add: output_of_def getattr_def)
next
  case (PList vs)
  then show ?thesis using extract_text_renamed [of "PList vs"]
    by (simp add: output_of_def getattr_def del: extract_text.simps)
next
  case (PTuple vs)
  then show ?thesis using extract_text_renamed [of "PTuple vs"]
    by (simp add: output_of_def getattr_def del: extract_text.simps)
next
  case (PDict d)
  have c: "map_of (map (map_prod rename_key rename_value) d) (KStr ''choices'')
             = map_option rename_value (map_of d (KStr ''choices''))"
    by (rule map_of_renamed_name) simp
  have m: "map_of (map (map_prod rename_key rename_value) d) (KStr ''message'')
             = map_option rename_value (map_of d (KStr ''message''))"
    by (rule map_of_renamed_name) simp
  have e: "extract_text (PDict (map (map_prod rename_key rename_value) d))
             = renamed_result (extract_text (PDict d))"
    using extract_text_renamed [of "PDict d"] by simp
  have s: "(case map_option rename_value (map_of d (KStr ''choices'')) of
              Some ch \<Rightarrow> sequence ch | None \<Rightarrow> None)
           = map_option (map rename_value)
               (case map_of d (KStr ''choices'') of Some ch \<Rightarrow> sequence ch | None \<Rightarrow> None)"
    by (cases "map_of d (KStr ''choices'')") (simp_all add: sequence_renamed)
  show ?thesis
    unfolding PDict rename_value.simps output_of_dict c m e s
    by (cases "case map_of d (KStr ''choices'') of Some ch \<Rightarrow> sequence ch | None \<Rightarrow> None";
        cases "map_of d (KStr ''message'')")
       (simp_all add: items_renamed extract_text_renamed del: extract_text.simps map_map)
next
  case (PObj attrs dump rp elems)
  let ?v = "PObj attrs dump rp elems"
  have e: "extract_text (rename_value ?v) = renamed_result (extract_text ?v)"
    by (rule extract_text_renamed)
  have fallback: "(case renamed_result r of Inl x \<Rightarrow> renamed_result a | Inr out \<Rightarrow> Inr out)
                    = renamed_result (case r of Inl x \<Rightarrow> a | Inr out \<Rightarrow> Inr out)" for r a
    by (cases r) (simp_all add: renamed_result_simps)
  show ?thesis
  proof (cases "map_of attrs ''content''")
    case (Some a)
    then show ?thesis unfolding PObj
      by (cases a)
         (simp_all add: output_of_object map_of_attrs extract_text_renamed renamed_result_simps
            del: extract_text.simps)
  next
    case None
    note no_content = None
    show ?thesis
    proof (cases "map_of attrs ''choices''")
      case (Some a)
      show ?thesis
      proof (cases a)
        case (Inl x)
        then show ?thesis unfolding PObj using no_content Some
          by (simp add: output_of_object map_of_attrs renamed_result_simps del: extract_text.simps)
      next
        case (Inr choices)
        have "output_of (rename_value ?v) =
                (case (case sequence (rename_value choices) of
                         Some cs \<Rightarrow> joined (collect (map choice_text cs))
                       | None \<Rightarrow> extract_text (rename_value choices)) of
                   Inl x \<Rightarrow> extract_text (rename_value ?v)
                 | Inr out \<Rightarrow> Inr out)"
          using no_content Some Inr
          by (simp add: output_of_object map_of_attrs del: extract_text.simps cong: sum.case_cong)
        also have "\<dots> = renamed_result
                (case (case sequence choices of
                         Some cs \<Rightarrow> joined (collect (map choice_text cs))
                       | None \<Rightarrow> extract_text choices) of
                   Inl x \<Rightarrow> extract_text ?v
                 | Inr out \<Rightarrow> Inr out)"
          by (simp only: choices_renamed e fallback)
        also have "\<dots> = renamed_result (output_of ?v)"
          using no_content Some Inr
          by (simp add: output_of_object del: extract_text.simps)
        finally show ?thesis unfolding PObj .
      qed
    next
      case None
      note no_choices = None
      show ?thesis
      proof (cases "map_of attrs ''generations''")
        case None
        then show ?thesis unfolding PObj using no_content no_choices e
          by (simp add: output_of_object map_of_attrs del: extract_text.simps)
      next
        case (Some a)
        show ?thesis
        proof (cases a)
          case (Inl x)
          then show ?thesis unfolding PObj using no_content no_choices Some
            by (simp add: output_of_object map_of_attrs renamed_result_simps del: extract_text.simps)
        next
          case (Inr gens)
          then show ?thesis unfolding PObj using no_content no_choices Some generations_renamed [of gens]
            by (simp add: output_of_object map_of_attrs del: extract_text.simps)
        qed
      qed
    qed
  qed
qed

lemma choice_text_held: "choice_text c = held_by_object c"
  by (simp add: held_by_object_def choice_text_dict spec_choice_text_object)

lemma item_text_held: "item_text c = held_by_dict c"
  by (cases "is_dict c")
     (simp_all add: held_by_dict_def spec_choice_text_dict item_text_other)

subsection \<open>Claims about \<^verbatim>\<open>normalize_result\<close>\<close>

text \<open>
  Claim C1 asks that no exception leaves \<^verbatim>\<open>normalize_result\<close>. An object without
  \<^verbatim>\<open>content\<close>, \<^verbatim>\<open>text\<close>, \<^verbatim>\<open>choices\<close> and \<^verbatim>\<open>generations\<close> whose \<^verbatim>\<open>model_dump\<close> raises
  \<^verbatim>\<open>TypeError\<close> at both calls (a method that takes no keyword argument, say) reaches
  the second call in the handler of the first, and that \<^verbatim>\<open>TypeError\<close> is raised to the
  caller.
\<close>

theorem normalize_result_raises:
  "normalize_result
     (PObj [] (Some (Inl TypeError, Inl TypeError)) (Inr ''<M object>'') (Inl TypeError))
     = Inl TypeError"
  by (simp add: normalize_result_stripped output_of_object stripped_result_def)

text \<open>
  Claim C3. A string is the output as it is, and the output goes through the fence
  stripper once: \<^verbatim>\<open>normalize_result(s)\<close> is \<^verbatim>\<open>strip_markdown_code_fences(s)\<close>.
\<close>

theorem normalize_result_string:
  "normalize_result (PStr s) = Inr (strip_markdown_code_fences s)"
  by (simp add: normalize_result_def output_of_def)

text \<open>
  Claim C8. The result is the fence stripper applied, once, to the output of the
  extraction (first part), and the extraction itself strips nothing, for every input.
  The latter is stated through what fence stripping needs: telling a backtick from
  other characters. Exchanging the backtick and the tilde throughout a value
  (\<open>rename_value\<close>) exchanges them throughout the text extracted from it, by
  \<^verbatim>\<open>_extract_text\<close> (second part) and by the branches of \<^verbatim>\<open>normalize_result\<close> before
  the last statement (third part): nothing there depends on a fence. The fence
  stripper does not have this property (fourth part). In particular a string is
  extracted as it is and a list of strings to its non-empty members joined by line
  feeds, so a fenced member of a list stays in the joined text, as in
  \<^verbatim>\<open>["```\na\n```", "b"]\<close>, also when it is the content of an object; a text that
  is a fence as a whole is stripped at the end.
\<close>

theorem strip_once_at_top:
  "normalize_result v = stripped_result (output_of v)
   \<and> extract_text (rename_value v) = renamed_result (extract_text v)
   \<and> output_of (rename_value v) = renamed_result (output_of v)
   \<and> strip_markdown_code_fences (renamed ''```\<newline>a\<newline>```'')
        \<noteq> renamed (strip_markdown_code_fences ''```\<newline>a\<newline>```'')
   \<and> extract_text (PStr s) = Inr s
   \<and> extract_text (PList (map PStr ss)) = Inr (join_nonempty ss)
   \<and> normalize_result (PList (map PStr ss)) = Inr (strip_markdown_code_fences (join_nonempty ss))
   \<and> normalize_result (PList [PStr ''```\<newline>a\<newline>```'', PStr ''b''])
        = Inr ''```\<newline>a\<newline>```\<newline>b''
   \<and> normalize_result
        (PList [plain_object [(''content'', PStr ''```\<newline>a\<newline>```'')], PStr ''b''])
        = Inr ''```\<newline>a\<newline>```\<newline>b''
   \<and> normalize_result (PList [PStr ''```\<newline>a\<newline>```'']) = Inr ''a''"
proof (intro conjI)
  show "normalize_result v = stripped_result (output_of v)"
    by (rule normalize_result_stripped)
  show "extract_text (rename_value v) = renamed_result (extract_text v)"
    by (rule extract_text_renamed)
  show "output_of (rename_value v) = renamed_result (output_of v)"
    by (rule output_of_renamed)
  show "strip_markdown_code_fences (renamed ''```\<newline>a\<newline>```'')
        \<noteq> renamed (strip_markdown_code_fences ''```\<newline>a\<newline>```'')"
    by code_simp
  show "extract_text (PStr s) = Inr s" by simp
  show "extract_text (PList (map PStr ss)) = Inr (join_nonempty ss)"
    by (rule extract_text_strings)
  show "normalize_result (PList (map PStr ss)) = Inr (strip_markdown_code_fences (join_nonempty ss))"
    by (simp add: normalize_result_stripped output_of_def getattr_def extract_text_strings
          stripped_result_def del: extract_text.simps)
  show "normalize_result (PList [PStr ''```\<newline>a\<newline>```'', PStr ''b''])
        = Inr ''```\<newline>a\<newline>```\<newline>b''"
    by code_simp
  show "normalize_result
        (PList [plain_object [(''content'', PStr ''```\<newline>a\<newline>```'')], PStr ''b''])
        = Inr ''```\<newline>a\<newline>```\<newline>b''"
    by code_simp
  show "normalize_result (PList [PStr ''```\<newline>a\<newline>```'']) = Inr ''a''"
    by code_simp
qed

text \<open>
  Claim C2, as amended. For a dict passed to \<^verbatim>\<open>normalize_result\<close>, a sequence under
  the key \<^verbatim>\<open>choices\<close> is looked at first, whether or not there is a key
  \<^verbatim>\<open>content\<close>: the result is made from the items of the sequence (first part).
  Without such a sequence, the value under the key \<^verbatim>\<open>message\<close> is extracted, again
  whether or not there is a key \<^verbatim>\<open>content\<close> (second part). The key \<^verbatim>\<open>content\<close>
  decides for a dict passed to \<^verbatim>\<open>normalize_result\<close> that has neither (third part),
  and for every dict met in the recursion, \<^verbatim>\<open>_extract_text\<close> (fourth part).
\<close>

theorem dict_choices_before_content:
  "(map_of d (KStr ''choices'') = Some ch \<and> sequence ch = Some cs
      \<longrightarrow> normalize_result (PDict d) = stripped_result (joined (collect (map item_text cs))))
   \<and> ((case map_of e (KStr ''choices'') of Some x \<Rightarrow> sequence x | None \<Rightarrow> None) = None
        \<and> map_of e (KStr ''message'') = Some m
      \<longrightarrow> normalize_result (PDict e) = stripped_result (extract_text m))
   \<and> (map_of d'' (KStr ''content'') = Some w
        \<and> (case map_of d'' (KStr ''choices'') of Some x \<Rightarrow> sequence x | None \<Rightarrow> None) = None
        \<and> map_of d'' (KStr ''message'') = None
      \<longrightarrow> normalize_result (PDict d'') = stripped_result (extract_text w))
   \<and> (map_of d' (KStr ''content'') = Some v
      \<longrightarrow> extract_text (PDict d') = extract_text v)"
  by (simp add: normalize_result_stripped output_of_dict)

text \<open>
  The four parts at \<^verbatim>\<open>{"content": "x", "choices": [{"text": "a"}]}\<close>, at
  \<^verbatim>\<open>{"content": "c", "message": {"content": "m"}}\<close> and at
  \<^verbatim>\<open>{"content": "x", "choices": "none"}\<close>.
\<close>

theorem dict_choices_before_content_witness:
  "map_of [(KStr ''content'', PStr ''x''), (KStr ''choices'', PList [PDict [(KStr ''text'', PStr ''a'')]])]
      (KStr ''choices'') = Some (PList [PDict [(KStr ''text'', PStr ''a'')]])
   \<and> sequence (PList [PDict [(KStr ''text'', PStr ''a'')]]) = Some [PDict [(KStr ''text'', PStr ''a'')]]
   \<and> normalize_result
        (PDict [(KStr ''content'', PStr ''x''), (KStr ''choices'', PList [PDict [(KStr ''text'', PStr ''a'')]])])
       = Inr ''a''
   \<and> (case map_of [(KStr ''content'', PStr ''c''), (KStr ''message'', PDict [(KStr ''content'', PStr ''m'')])]
              (KStr ''choices'') of
         Some x \<Rightarrow> sequence x | None \<Rightarrow> None) = None
   \<and> map_of [(KStr ''content'', PStr ''c''), (KStr ''message'', PDict [(KStr ''content'', PStr ''m'')])]
        (KStr ''message'') = Some (PDict [(KStr ''content'', PStr ''m'')])
   \<and> normalize_result
        (PDict [(KStr ''content'', PStr ''c''), (KStr ''message'', PDict [(KStr ''content'', PStr ''m'')])])
       = Inr ''m''
   \<and> map_of [(KStr ''content'', PStr ''x''), (KStr ''choices'', PStr ''none'')] (KStr ''content'')
       = Some (PStr ''x'')
   \<and> (case map_of [(KStr ''content'', PStr ''x''), (KStr ''choices'', PStr ''none'')] (KStr ''choices'') of
         Some x \<Rightarrow> sequence x | None \<Rightarrow> None) = None
   \<and> map_of [(KStr ''content'', PStr ''x''), (KStr ''choices'', PStr ''none'')] (KStr ''message'') = None
   \<and> normalize_result (PDict [(KStr ''content'', PStr ''x''), (KStr ''choices'', PStr ''none'')])
       = Inr ''x''
   \<and> map_of [(KStr ''content'', PStr ''x''), (KStr ''choices'', PList [PDict [(KStr ''text'', PStr ''a'')]])]
        (KStr ''content'') = Some (PStr ''x'')
   \<and> extract_text
        (PDict [(KStr ''content'', PStr ''x''), (KStr ''choices'', PList [PDict [(KStr ''text'', PStr ''a'')]])])
       = Inr ''x''"
proof -
  let ?cs = "[PDict [(KStr ''text'', PStr ''a'')]]"
  let ?d = "[(KStr ''content'', PStr ''x''), (KStr ''choices'', PList ?cs)]"
  let ?m = "PDict [(KStr ''content'', PStr ''m'')]"
  let ?f = "[(KStr ''content'', PStr ''c''), (KStr ''message'', ?m)]"
  let ?e = "[(KStr ''content'', PStr ''x''), (KStr ''choices'', PStr ''none'')]"
  note T = dict_choices_before_content [of ?d "PList ?cs" ?cs ?f ?m ?e "PStr ''x''" ?d "PStr ''x''"]
  have h1: "map_of ?d (KStr ''choices'') = Some (PList ?cs) \<and> sequence (PList ?cs) = Some ?cs"
    by (simp add: sequence_def)
  have h2: "(case map_of ?f (KStr ''choices'') of Some x \<Rightarrow> sequence x | None \<Rightarrow> None) = None
        \<and> map_of ?f (KStr ''message'') = Some ?m"
    by simp
  have h3: "map_of ?e (KStr ''content'') = Some (PStr ''x'')
        \<and> (case map_of ?e (KStr ''choices'') of Some x \<Rightarrow> sequence x | None \<Rightarrow> None) = None
        \<and> map_of ?e (KStr ''message'') = None"
    by (simp add: sequence_def)
  have h4: "map_of ?d (KStr ''content'') = Some (PStr ''x'')" by simp
  have e1: "stripped_result (joined (collect (map item_text ?cs))) = Inr ''a''" by code_simp
  have e2: "stripped_result (extract_text ?m) = Inr ''m''" by code_simp
  have e3: "stripped_result (extract_text (PStr ''x'')) = Inr ''x''" by code_simp
  have e4: "extract_text (PStr ''x'') = Inr ''x''" by simp
  have c1: "normalize_result (PDict ?d) = Inr ''a''" using T h1 e1 by metis
  have c2: "normalize_result (PDict ?f) = Inr ''m''" using T h2 e2 by metis
  have c3: "normalize_result (PDict ?e) = Inr ''x''" using T h3 e3 by metis
  have c4: "extract_text (PDict ?d) = Inr ''x''" using T h4 e4 by metis
  show ?thesis using h1 h2 h3 h4 c1 c2 c3 c4 by blast
qed

text \<open>
  Claim C2 as stated fails at \<^verbatim>\<open>{"content": "x", "choices": [{"text": "a"}]}\<close>: the
  result is not what the value under \<^verbatim>\<open>content\<close> gives.
\<close>

theorem dict_choices_before_content_counterexample:
  "map_of [(KStr ''content'', PStr ''x''), (KStr ''choices'', PList [PDict [(KStr ''text'', PStr ''a'')]])]
      (KStr ''content'') = Some (PStr ''x'')
   \<and> sequence (PList [PDict [(KStr ''text'', PStr ''a'')]]) = Some [PDict [(KStr ''text'', PStr ''a'')]]
   \<and> normalize_result
        (PDict [(KStr ''content'', PStr ''x''), (KStr ''choices'', PList [PDict [(KStr ''text'', PStr ''a'')]])])
       \<noteq> stripped_result (extract_text (PStr ''x''))"
  by code_simp

text \<open>
  Claim C7, as amended. The rule of the specification for one choice (\<open>spec_choice_text\<close>:
  \<^verbatim>\<open>message\<close> before \<^verbatim>\<open>text\<close> before the choice itself) is what the code does when the
  choices are of the kind of their container: choices that are not dicts in the
  \<^verbatim>\<open>choices\<close> attribute of an object without a \<^verbatim>\<open>content\<close> attribute (first part,
  when no step raises), and dict choices under the \<^verbatim>\<open>choices\<close> key of a dict (second
  part). For every list of choices, of one kind or mixed, each choice follows
  \<open>held_by_object\<close> in the \<^verbatim>\<open>choices\<close> attribute of an object, where a step that raises
  makes the whole object be extracted instead (third part), and \<open>held_by_dict\<close> under
  the \<^verbatim>\<open>choices\<close> key of a dict (fourth part): a dict choice held by an object is
  not asked for its keys, and a choice that is not a dict, held by a dict, is asked for
  its \<^verbatim>\<open>message\<close> attribute and for nothing else. The non-empty texts are joined by
  line feeds and the joined text goes through the fence stripper.
\<close>

theorem choices_by_kind:
  "(getattr result ''content'' = None \<and> getattr result ''choices'' = Some (Inr ch)
      \<and> sequence ch = Some cs \<and> (\<forall>c\<in>set cs. \<not> is_dict c)
      \<and> collect (map spec_choice_text cs) = Inr texts
    \<longrightarrow> normalize_result result = Inr (strip_markdown_code_fences (join_nonempty texts)))
   \<and> (map_of d (KStr ''choices'') = Some dch \<and> sequence dch = Some ds
      \<and> (\<forall>c\<in>set ds. is_dict c)
    \<longrightarrow> normalize_result (PDict d) = stripped_result (joined (collect (map spec_choice_text ds))))
   \<and> (getattr result' ''content'' = None \<and> getattr result' ''choices'' = Some (Inr ch')
      \<and> sequence ch' = Some cs'
    \<longrightarrow> normalize_result result' =
          (case joined (collect (map held_by_object cs')) of
             Inl e \<Rightarrow> stripped_result (extract_text result')
           | Inr out \<Rightarrow> Inr (strip_markdown_code_fences out)))
   \<and> (map_of d' (KStr ''choices'') = Some dch' \<and> sequence dch' = Some ds'
    \<longrightarrow> normalize_result (PDict d') = stripped_result (joined (collect (map held_by_dict ds'))))"
proof (intro conjI impI)
  assume a: "getattr result ''content'' = None \<and> getattr result ''choices'' = Some (Inr ch)
      \<and> sequence ch = Some cs \<and> (\<forall>c\<in>set cs. \<not> is_dict c)
      \<and> collect (map spec_choice_text cs) = Inr texts"
  then have "map choice_text cs = map spec_choice_text cs"
    by (intro map_choice_text_objects) simp
  with a have "collect (map choice_text cs) = Inr texts" by (simp only:)
  with a have "output_of result = Inr (join_nonempty texts)"
    by (intro output_of_object_choices [of result ch cs texts]) simp_all
  then show "normalize_result result = Inr (strip_markdown_code_fences (join_nonempty texts))"
    by (simp add: normalize_result_def)
next
  assume b: "map_of d (KStr ''choices'') = Some dch \<and> sequence dch = Some ds
      \<and> (\<forall>c\<in>set ds. is_dict c)"
  then have "output_of (PDict d) = joined (collect (map item_text ds))"
    by (intro output_of_dict_choices [of d dch ds]) simp_all
  moreover from b have "map item_text ds = map spec_choice_text ds"
    by (intro map_item_text_dicts) simp
  ultimately show "normalize_result (PDict d) = stripped_result (joined (collect (map spec_choice_text ds)))"
    by (simp only: normalize_result_stripped)
next
  assume c: "getattr result' ''content'' = None \<and> getattr result' ''choices'' = Some (Inr ch')
      \<and> sequence ch' = Some cs'"
  have m: "map choice_text cs' = map held_by_object cs'"
    by (simp add: choice_text_held)
  show "normalize_result result' =
          (case joined (collect (map held_by_object cs')) of
             Inl e \<Rightarrow> stripped_result (extract_text result')
           | Inr out \<Rightarrow> Inr (strip_markdown_code_fences out))"
  proof (cases result')
    case (PObj attrs dump rp elems)
    have "output_of result' =
            (case joined (collect (map choice_text cs')) of
               Inl e \<Rightarrow> extract_text result'
             | Inr out \<Rightarrow> Inr out)"
      using c unfolding PObj
      by (simp add: output_of_object getattr_def del: extract_text.simps)
    then show ?thesis
      unfolding m
      by (cases "joined (collect (map held_by_object cs'))")
         (simp_all add: normalize_result_stripped stripped_result_def)
  qed (use c in \<open>simp_all add: getattr_def\<close>)
next
  assume e: "map_of d' (KStr ''choices'') = Some dch' \<and> sequence dch' = Some ds'"
  then have "output_of (PDict d') = joined (collect (map item_text ds'))"
    by (intro output_of_dict_choices [of d' dch' ds']) simp_all
  moreover have "map item_text ds' = map held_by_dict ds'"
    by (simp add: item_text_held)
  ultimately show "normalize_result (PDict d') = stripped_result (joined (collect (map held_by_dict ds')))"
    by (simp only: normalize_result_stripped)
qed

text \<open>
  The four parts: two object choices, the first with \<^verbatim>\<open>message\<close> and \<^verbatim>\<open>text\<close>, give
  \<^verbatim>\<open>"m\nb"\<close>, and so do two dict choices; in an object, a dict choice is serialised
  and an object choice gives its text; in a dict, an object choice with \<^verbatim>\<open>message\<close>
  and \<^verbatim>\<open>content\<close> gives its message, a dict choice its text, and an object choice
  with \<^verbatim>\<open>text\<close> and \<^verbatim>\<open>content\<close> its content.
\<close>

theorem choices_by_kind_witness:
  "normalize_result
     (plain_object [(''choices'',
        PList [plain_object [(''message'', PStr ''m''), (''text'', PStr ''t'')],
               plain_object [(''text'', PStr ''b'')]])])
     = Inr ''m\<newline>b''
   \<and> normalize_result
        (PDict [(KStr ''choices'',
           PList [PDict [(KStr ''message'', PDict [(KStr ''content'', PStr ''m'')]),
                         (KStr ''text'', PStr ''t'')],
                  PDict [(KStr ''text'', PStr ''b'')]])])
       = Inr ''m\<newline>b''
   \<and> normalize_result
        (plain_object [(''choices'',
           PList [PDict [(KStr ''text'', PStr ''a'')], plain_object [(''text'', PStr ''b'')]])])
       = Inr (json_dumps [(''text'', ''a'')] @ ''\<newline>b'')
   \<and> normalize_result
        (PDict [(KStr ''choices'',
           PList [plain_object [(''message'', PStr ''mm''), (''content'', PStr ''cc'')],
                  PDict [(KStr ''text'', PStr ''b'')],
                  plain_object [(''text'', PStr ''t''), (''content'', PStr ''c'')]])])
       = Inr ''mm\<newline>b\<newline>c''"
proof -
  let ?o1 = "plain_object [(''message'', PStr ''m''), (''text'', PStr ''t'')]"
  let ?o2 = "plain_object [(''text'', PStr ''b'')]"
  let ?r = "plain_object [(''choices'', PList [?o1, ?o2])]"
  let ?d1 = "PDict [(KStr ''message'', PDict [(KStr ''content'', PStr ''m'')]), (KStr ''text'', PStr ''t'')]"
  let ?d2 = "PDict [(KStr ''text'', PStr ''b'')]"
  let ?d = "[(KStr ''choices'', PList [?d1, ?d2])]"
  let ?d3 = "PDict [(KStr ''text'', PStr ''a'')]"
  let ?r' = "plain_object [(''choices'', PList [?d3, ?o2])]"
  let ?o3 = "plain_object [(''message'', PStr ''mm''), (''content'', PStr ''cc'')]"
  let ?o4 = "plain_object [(''text'', PStr ''t''), (''content'', PStr ''c'')]"
  let ?d' = "[(KStr ''choices'', PList [?o3, ?d2, ?o4])]"
  note T = choices_by_kind [of ?r "PList [?o1, ?o2]" "[?o1, ?o2]" "[''m'', ''b'']"
      ?d "PList [?d1, ?d2]" "[?d1, ?d2]"
      ?r' "PList [?d3, ?o2]" "[?d3, ?o2]"
      ?d' "PList [?o3, ?d2, ?o4]" "[?o3, ?d2, ?o4]"]
  have h1: "getattr ?r ''content'' = None \<and> getattr ?r ''choices'' = Some (Inr (PList [?o1, ?o2]))
      \<and> sequence (PList [?o1, ?o2]) = Some [?o1, ?o2] \<and> (\<forall>c\<in>set [?o1, ?o2]. \<not> is_dict c)
      \<and> collect (map spec_choice_text [?o1, ?o2]) = Inr [''m'', ''b'']"
    by (simp add: plain_object_def getattr_def sequence_def is_dict_def spec_choice_text_def field_def)
  have h2: "map_of ?d (KStr ''choices'') = Some (PList [?d1, ?d2])
      \<and> sequence (PList [?d1, ?d2]) = Some [?d1, ?d2] \<and> (\<forall>c\<in>set [?d1, ?d2]. is_dict c)"
    by (simp add: sequence_def is_dict_def)
  have h3: "getattr ?r' ''content'' = None \<and> getattr ?r' ''choices'' = Some (Inr (PList [?d3, ?o2]))
      \<and> sequence (PList [?d3, ?o2]) = Some [?d3, ?o2]"
    by (simp add: plain_object_def getattr_def sequence_def)
  have h4: "map_of ?d' (KStr ''choices'') = Some (PList [?o3, ?d2, ?o4])
      \<and> sequence (PList [?o3, ?d2, ?o4]) = Some [?o3, ?d2, ?o4]"
    by (simp add: sequence_def)
  have e1: "strip_markdown_code_fences (join_nonempty [''m'', ''b'']) = ''m\<newline>b''" by code_simp
  have e2: "stripped_result (joined (collect (map spec_choice_text [?d1, ?d2]))) = Inr ''m\<newline>b''"
    by code_simp
  have e3: "(case joined (collect (map held_by_object [?d3, ?o2])) of
               Inl e \<Rightarrow> stripped_result (extract_text ?r')
             | Inr out \<Rightarrow> Inr (strip_markdown_code_fences out))
              = Inr (json_dumps [(''text'', ''a'')] @ ''\<newline>b'')"
    by code_simp
  have e4: "stripped_result (joined (collect (map held_by_dict [?o3, ?d2, ?o4])))
              = Inr ''mm\<newline>b\<newline>c''"
    by code_simp
  have c1: "normalize_result ?r = Inr ''m\<newline>b''" using T h1 e1 by metis
  have c2: "normalize_result (PDict ?d) = Inr ''m\<newline>b''" using T h2 e2 by metis
  have c3: "normalize_result ?r' = Inr (json_dumps [(''text'', ''a'')] @ ''\<newline>b'')"
    using T h3 e3 by metis
  have c4: "normalize_result (PDict ?d') = Inr ''mm\<newline>b\<newline>c''" using T h4 e4 by metis
  show ?thesis using c1 c2 c3 c4 by blast
qed

text \<open>
  Claim C7 as stated fails for an object whose \<^verbatim>\<open>choices\<close> are the dicts
  \<^verbatim>\<open>{"text": "a"}\<close> and \<^verbatim>\<open>{"text": "b"}\<close>: the rule of the specification gives
  \<^verbatim>\<open>"a\nb"\<close>, the code the two dicts serialised.
\<close>

theorem choices_by_kind_counterexample:
  "getattr (plain_object [(''choices'',
        PList [PDict [(KStr ''text'', PStr ''a'')], PDict [(KStr ''text'', PStr ''b'')]])]) ''choices''
     = Some (Inr (PList [PDict [(KStr ''text'', PStr ''a'')], PDict [(KStr ''text'', PStr ''b'')]]))
   \<and> stripped_result (joined (collect (map spec_choice_text
        [PDict [(KStr ''text'', PStr ''a'')], PDict [(KStr ''text'', PStr ''b'')]])))
       = Inr ''a\<newline>b''
   \<and> normalize_result
        (plain_object [(''choices'',
           PList [PDict [(KStr ''text'', PStr ''a'')], PDict [(KStr ''text'', PStr ''b'')]])])
       = Inr (json_dumps [(''text'', ''a'')] @ ''\<newline>'' @ json_dumps [(''text'', ''b'')])
   \<and> normalize_result
        (plain_object [(''choices'',
           PList [PDict [(KStr ''text'', PStr ''a'')], PDict [(KStr ''text'', PStr ''b'')]])])
       \<noteq> Inr ''a\<newline>b''"
  by code_simp

end
